theory Spec2Isabelle
  imports Main "HOL-Library.Sublist"
begin

section \<open>The transaction analyzer service (services/tx\_analyzer.go)\<close>

text \<open>
  \<^verbatim>\<open>TxAnalyzerService.Start\<close> starts one goroutine per agent (\<^verbatim>\<open>newAgentStream\<close>) and one
  ingestion goroutine, all in one \<^verbatim>\<open>errgroup\<close>, and waits for them. The goroutines run
  concurrently, so the embedding is an interleaving semantics: a state holds the program
  counter of every goroutine and the shared objects (the channels, the group's context, the
  requests allocated so far), and an action is one step of one goroutine or one move of the
  environment. What the environment decides (the value \<^verbatim>\<open>uuid.NewUUID\<close> returns, the answer of
  an agent, the cancellation of the parent context, the passing of time) is carried by the
  action; the two pure functions of code that is not in this file (\<^verbatim>\<open>tx.ToMessage\<close> and
  \<^verbatim>\<open>jsonpb.Marshaler.MarshalToString\<close>) are parameters.
\<close>

subsection \<open>Data\<close>

text \<open>A Go \<^verbatim>\<open>error\<close> value: the two errors of package \<^verbatim>\<open>context\<close>, or any other error, by
  its message.\<close>

datatype error = Canceled | DeadlineExceeded | Failure string

text \<open>\<^verbatim>\<open>protocol.EvaluateRequest{RequestId: ..., Event: msg}\<close>. The code handles requests by
  pointer (\<^verbatim>\<open>*protocol.EvaluateRequest\<close>): a pointer is the index of the request in the list
  of requests allocated so far.\<close>

record 'msg EvaluateRequest =
  RequestId :: string
  Event :: 'msg

type_synonym addr = nat

text \<open>A channel \<^verbatim>\<open>chan *protocol.EvaluateRequest\<close>: the buffered pointers, oldest first, and
  whether \<^verbatim>\<open>close\<close> was called. \<^verbatim>\<open>make(chan *protocol.EvaluateRequest, 100)\<close>.\<close>

record chan =
  buf :: "addr list"
  closed :: bool

definition chan_cap :: nat where
  "chan_cap = 100"

text \<open>\<^verbatim>\<open>5*time.Second\<close>, in nanoseconds as \<^verbatim>\<open>time.Duration\<close> counts.\<close>

definition call_timeout :: nat where
  "call_timeout = 5 * 1000000000"

text \<open>What the goroutines hand to logrus: \<open>LogError text err\<close> is \<^verbatim>\<open>log.Error(text, err)\<close>;
  \<open>LogInfo text\<close> is the line \<open>text\<close> at level info (line 57, its format rendered with its
  operand); \<open>LogInfof format\<close> is \<^verbatim>\<open>log.Infof(format)\<close> with no operand (line 50): logrus writes
  \<^verbatim>\<open>fmt.Sprintf(format)\<close>, which is \<open>format\<close> itself only when it holds no \<^verbatim>\<open>%\<close>.\<close>

datatype logentry = LogError string error | LogInfo string | LogInfof string

text \<open>A run-time panic ends the run: nothing in the file recovers, so the process exits once
  the deferred calls of the panicking goroutine have run. The model stops at the panic and
  records it; what the deferred closes of lines 69-73 do on the way out is not modelled.\<close>

datatype panic = MustPanic error | SendOnClosedChannel | CloseOfClosedChannel

text \<open>Where the goroutine of \<^verbatim>\<open>newAgentStream\<close> stands:
  \<^item> \<open>W_Recv\<close>: at \<^verbatim>\<open>for request := range input\<close> (line 33);
  \<^item> \<open>W_Check p\<close>: it holds request \<open>p\<close>, before \<^verbatim>\<open>if ctx.Err() != nil\<close> (line 34);
  \<^item> \<open>W_Invoke p\<close>: before \<^verbatim>\<open>context.WithTimeout\<close> and \<^verbatim>\<open>agent.Evaluate\<close> (lines 37-38);
  \<^item> \<open>W_Call p dl\<close>: inside \<^verbatim>\<open>agent.Evaluate(ctx, request)\<close>, whose context has deadline \<open>dl\<close>;
  \<^item> \<open>W_Done r\<close>: the function has returned \<open>r\<close> (\<open>None\<close> is \<^verbatim>\<open>nil\<close>).\<close>

datatype wpc = W_Recv | W_Check addr | W_Invoke addr | W_Call addr nat | W_Done "error option"

text \<open>One agent: its channel (\<^verbatim>\<open>input\<close>, the same object as \<^verbatim>\<open>agentChannels[i]\<close>), its goroutine, and
  the requests its \<^verbatim>\<open>Evaluate\<close> was called with, oldest first.\<close>

record worker =
  input :: chan
  wpc :: wpc
  calls :: "addr list"

text \<open>Where the ingestion goroutine (lines 68-98) stands:
  \<^item> \<open>I_Recv\<close>: at \<^verbatim>\<open>for tx := range t.cfg.TxChannel\<close> (line 76);
  \<^item> \<open>I_Check tx\<close>: it holds \<open>tx\<close>, before \<^verbatim>\<open>if ctx.Err() != nil\<close> (line 77);
  \<^item> \<open>I_Convert tx\<close>: before \<^verbatim>\<open>tx.ToMessage()\<close> (line 82);
  \<^item> \<open>I_Tag msg\<close>: before \<^verbatim>\<open>uuid.Must(uuid.NewUUID())\<close> and the allocation (lines 89-90);
  \<^item> \<open>I_Send p k\<close>: in the loop of lines 93-95, before \<^verbatim>\<open>agtCh <- request\<close> on channel \<open>k\<close>;
  \<^item> \<open>I_Close k r\<close>: returning \<open>r\<close>, in the deferred loop (lines 70-72) before \<^verbatim>\<open>close\<close> of channel \<open>k\<close>;
  \<^item> \<open>I_Done r\<close>: the function has returned \<open>r\<close>.\<close>

datatype ('ev, 'msg) ipc =
    I_Recv
  | I_Check 'ev
  | I_Convert 'ev
  | I_Tag 'msg
  | I_Send addr nat
  | I_Close nat "error option"
  | I_Done "error option"

text \<open>The state of one call of \<^verbatim>\<open>Start\<close>. \<open>txs\<close> are the events the source has still to deliver
  on \<^verbatim>\<open>TxChannel\<close>; \<open>src_closed\<close> says whether the source closes the channel after them (a
  source that does not leaves the ingestion loop waiting). \<open>ctx_err\<close> is \<^verbatim>\<open>ctx.Err()\<close> of the
  group's context and \<open>grp_err\<close> the error the group has recorded (what \<^verbatim>\<open>grp.Wait()\<close>
  returns).\<close>

record ('ev, 'msg) state =
  txs :: "'ev list"
  src_closed :: bool
  ipc :: "('ev, 'msg) ipc"
  workers :: "worker list"
  heap :: "'msg EvaluateRequest list"
  ctx_err :: "error option"
  grp_err :: "error option"
  logs :: "logentry list"
  panicked :: "panic option"
  now :: nat

text \<open>The functions of other packages that the two goroutines call and that are pure.\<close>

record ('ev, 'msg, 'resp) deps =
  ToMessage :: "'ev \<Rightarrow> error + 'msg"
  MarshalToString :: "'resp \<Rightarrow> error + string"

subsection \<open>The group and its context\<close>

text \<open>\<^verbatim>\<open>errgroup.WithContext\<close>: the first goroutine that returns a non-nil error has it recorded
  and cancels the group's context. Cancelling a context that is already done changes
  nothing.\<close>

definition cancel_with :: "error \<Rightarrow> ('ev, 'msg) state \<Rightarrow> ('ev, 'msg) state" where
  "cancel_with e s = (case ctx_err s of None \<Rightarrow> s\<lparr>ctx_err := Some e\<rparr> | Some _ \<Rightarrow> s)"

definition task_return :: "error option \<Rightarrow> ('ev, 'msg) state \<Rightarrow> ('ev, 'msg) state" where
  "task_return r s =
     (case r of
        None \<Rightarrow> s
      | Some e \<Rightarrow>
          cancel_with Canceled
            (case grp_err s of None \<Rightarrow> s\<lparr>grp_err := Some e\<rparr> | Some _ \<Rightarrow> s))"

text \<open>The context of a call in flight is \<^verbatim>\<open>context.WithTimeout(ctx, 5*time.Second)\<close>, made
  from the group's context, with deadline \<open>dl\<close>: it is done as soon as its parent is done or
  its own deadline has passed, whichever comes first.\<close>

definition call_ctx_done :: "('ev, 'msg) state \<Rightarrow> nat \<Rightarrow> bool" where
  "call_ctx_done s dl \<longleftrightarrow> ctx_err s \<noteq> None \<or> dl \<le> now s"

subsection \<open>The ingestion goroutine\<close>

definition set_input :: "nat \<Rightarrow> chan \<Rightarrow> ('ev, 'msg) state \<Rightarrow> ('ev, 'msg) state" where
  "set_input k c s = s\<lparr>workers := (workers s)[k := (workers s ! k)\<lparr>input := c\<rparr>]\<rparr>"

text \<open>One step of the ingestion goroutine; \<open>u\<close> is what \<^verbatim>\<open>uuid.NewUUID()\<close> returns (with the
  identifier already as \<^verbatim>\<open>requestId.String()\<close>) if the step calls it. \<open>None\<close>: the goroutine
  is blocked (an empty open \<^verbatim>\<open>TxChannel\<close>, a full agent channel) or has returned.\<close>

definition ingest_step ::
  "('ev, 'msg, 'resp) deps \<Rightarrow> error + string \<Rightarrow> ('ev, 'msg) state \<Rightarrow> ('ev, 'msg) state option" where
  "ingest_step D u s =
     (case ipc s of
        I_Recv \<Rightarrow>
          (case txs s of
             tx # rest \<Rightarrow> Some (s\<lparr>txs := rest, ipc := I_Check tx\<rparr>)
           | [] \<Rightarrow> if src_closed s then Some (s\<lparr>ipc := I_Close 0 None\<rparr>) else None)
      | I_Check tx \<Rightarrow>
          (case ctx_err s of
             Some e \<Rightarrow> Some (s\<lparr>ipc := I_Close 0 (Some e)\<rparr>)
           | None \<Rightarrow> Some (s\<lparr>ipc := I_Convert tx\<rparr>))
      | I_Convert tx \<Rightarrow>
          (case ToMessage D tx of
             Inl e \<Rightarrow>
               Some (s\<lparr>logs := logs s @ [LogError ''error converting tx event to message'' e],
                       ipc := I_Recv\<rparr>)
           | Inr msg \<Rightarrow> Some (s\<lparr>ipc := I_Tag msg\<rparr>))
      | I_Tag msg \<Rightarrow>
          (case u of
             Inl e \<Rightarrow> Some (s\<lparr>panicked := Some (MustPanic e)\<rparr>)
           | Inr rid \<Rightarrow>
               Some (s\<lparr>heap := heap s @ [\<lparr>RequestId = rid, Event = msg\<rparr>],
                       ipc := I_Send (length (heap s)) 0\<rparr>))
      | I_Send p k \<Rightarrow>
          if k < length (workers s) then
            (let c = input (workers s ! k) in
               if closed c then Some (s\<lparr>panicked := Some SendOnClosedChannel\<rparr>)
               else if length (buf c) < chan_cap
                 then Some (set_input k (c\<lparr>buf := buf c @ [p]\<rparr>) (s\<lparr>ipc := I_Send p (Suc k)\<rparr>))
               else None)
          else Some (s\<lparr>ipc := I_Recv\<rparr>)
      | I_Close k r \<Rightarrow>
          if k < length (workers s) then
            (let c = input (workers s ! k) in
               if closed c then Some (s\<lparr>panicked := Some CloseOfClosedChannel\<rparr>)
               else Some (set_input k (c\<lparr>closed := True\<rparr>) (s\<lparr>ipc := I_Close (Suc k) r\<rparr>)))
          else Some (task_return r (s\<lparr>ipc := I_Done r\<rparr>))
      | I_Done r \<Rightarrow> None)"

subsection \<open>The goroutine of one agent\<close>

definition set_worker :: "nat \<Rightarrow> worker \<Rightarrow> ('ev, 'msg) state \<Rightarrow> ('ev, 'msg) state" where
  "set_worker i w s = s\<lparr>workers := (workers s)[i := w]\<rparr>"

definition log_line :: "logentry \<Rightarrow> ('ev, 'msg) state \<Rightarrow> ('ev, 'msg) state" where
  "log_line l s = s\<lparr>logs := logs s @ [l]\<rparr>"

text \<open>One step of the goroutine of agent \<open>i\<close>; \<open>a\<close> is what \<^verbatim>\<open>agent.Evaluate\<close> returns if the
  step is the return of the call. The call is given the context of line 37: the agent's
  response is returned only while that context is not done, and once it is done the call
  ends with an error. \<open>None\<close>: the goroutine is blocked (an empty open channel), has
  returned, there is no agent \<open>i\<close>, or the call cannot return \<open>a\<close> (a response, its context
  being done).\<close>

definition worker_step ::
  "('ev, 'msg, 'resp) deps \<Rightarrow> nat \<Rightarrow> error + 'resp \<Rightarrow> ('ev, 'msg) state \<Rightarrow> ('ev, 'msg) state option" where
  "worker_step D i a s =
     (if i < length (workers s) then
        (let w = workers s ! i in
           case wpc w of
             W_Recv \<Rightarrow>
               (case buf (input w) of
                  p # rest \<Rightarrow>
                    Some (set_worker i (w\<lparr>input := (input w)\<lparr>buf := rest\<rparr>, wpc := W_Check p\<rparr>) s)
                | [] \<Rightarrow>
                    if closed (input w)
                    then Some (task_return None (set_worker i (w\<lparr>wpc := W_Done None\<rparr>) s))
                    else None)
           | W_Check p \<Rightarrow>
               (case ctx_err s of
                  Some e \<Rightarrow> Some (task_return (Some e) (set_worker i (w\<lparr>wpc := W_Done (Some e)\<rparr>) s))
                | None \<Rightarrow> Some (set_worker i (w\<lparr>wpc := W_Invoke p\<rparr>) s))
           | W_Invoke p \<Rightarrow>
               Some (set_worker i (w\<lparr>wpc := W_Call p (now s + call_timeout), calls := calls w @ [p]\<rparr>) s)
           | W_Call p dl \<Rightarrow>
               (case a of
                  Inl e \<Rightarrow>
                    Some (log_line (LogError ''error invoking agent'' e)
                            (set_worker i (w\<lparr>wpc := W_Recv\<rparr>) s))
                | Inr resp \<Rightarrow>
                    if call_ctx_done s dl then None
                    else
                      (case MarshalToString D resp of
                         Inl e \<Rightarrow>
                           Some (log_line (LogError ''error marshaling response'' e)
                                   (set_worker i (w\<lparr>wpc := W_Recv\<rparr>) s))
                       | Inr resStr \<Rightarrow>
                           Some (log_line (LogInfof resStr) (set_worker i (w\<lparr>wpc := W_Recv\<rparr>) s))))
           | W_Done r \<Rightarrow> None)
      else None)"

subsection \<open>Runs of \<^verbatim>\<open>Start\<close>\<close>

text \<open>An action: a step of the ingestion goroutine, a step of the goroutine of agent \<open>i\<close>,
  the parent context \<^verbatim>\<open>t.ctx\<close> being cancelled or reaching a deadline of its own, or time
  passing.\<close>

datatype 'resp action =
    Ingest "error + string"
  | Work nat "error + 'resp"
  | Cancel
  | Expire
  | Tick nat

definition step ::
  "('ev, 'msg, 'resp) deps \<Rightarrow> 'resp action \<Rightarrow> ('ev, 'msg) state \<Rightarrow> ('ev, 'msg) state option" where
  "step D act s =
     (if panicked s \<noteq> None then None
      else case act of
        Ingest u \<Rightarrow> ingest_step D u s
      | Work i a \<Rightarrow> worker_step D i a s
      | Cancel \<Rightarrow> Some (cancel_with Canceled s)
      | Expire \<Rightarrow> Some (cancel_with DeadlineExceeded s)
      | Tick d \<Rightarrow> Some (s\<lparr>now := now s + d\<rparr>))"

fun run ::
  "('ev, 'msg, 'resp) deps \<Rightarrow> 'resp action list \<Rightarrow> ('ev, 'msg) state \<Rightarrow> ('ev, 'msg) state option" where
  "run D [] s = Some s"
| "run D (act # acts) s = (case step D act s of None \<Rightarrow> None | Some s' \<Rightarrow> run D acts s')"

text \<open>The state in which \<^verbatim>\<open>Start\<close> leaves its first loop (lines 60-66), with \<open>n\<close> agents: one
  empty channel and one goroutine per agent, and the line of \<^verbatim>\<open>log.Infof("Starting %s", ...)\<close>.\<close>

definition new_worker :: worker where
  "new_worker = \<lparr>input = \<lparr>buf = [], closed = False\<rparr>, wpc = W_Recv, calls = []\<rparr>"

definition init :: "'ev list \<Rightarrow> bool \<Rightarrow> nat \<Rightarrow> ('ev, 'msg) state" where
  "init evs cl n =
     \<lparr>txs = evs, src_closed = cl, ipc = I_Recv, workers = replicate n new_worker, heap = [],
      ctx_err = None, grp_err = None, logs = [LogInfo ''Starting TxAnalyzerService''],
      panicked = None, now = 0\<rparr>"

text \<open>\<^verbatim>\<open>grp.Wait()\<close> returns once every goroutine of the group has returned, with the recorded
  error: \<open>Start_result s\<close> is \<open>None\<close> while \<^verbatim>\<open>Start\<close> is still waiting.\<close>

fun is_done :: "wpc \<Rightarrow> bool" where
  "is_done (W_Done r) = True"
| "is_done _ = False"

fun ingest_done :: "('ev, 'msg) ipc \<Rightarrow> bool" where
  "ingest_done (I_Done r) = True"
| "ingest_done _ = False"

definition all_done :: "('ev, 'msg) state \<Rightarrow> bool" where
  "all_done s \<longleftrightarrow> ingest_done (ipc s) \<and> list_all (\<lambda>w. is_done (wpc w)) (workers s)"

definition Start_result :: "('ev, 'msg) state \<Rightarrow> error option option" where
  "Start_result s = (if all_done s then Some (grp_err s) else None)"

text \<open>The payloads of the events that \<^verbatim>\<open>ToMessage\<close> converts, in the order of the events.\<close>

fun translated :: "('ev, 'msg, 'resp) deps \<Rightarrow> 'ev list \<Rightarrow> 'msg list" where
  "translated D [] = []"
| "translated D (e # es) =
     (case ToMessage D e of Inl err \<Rightarrow> translated D es | Inr m \<Rightarrow> m # translated D es)"

section \<open>Invariants, measures and an instance\<close>

text \<open>How many channels the ingestion goroutine has closed, by its program counter.\<close>

fun closed_upto :: "nat \<Rightarrow> ('ev, 'msg) ipc \<Rightarrow> nat" where
  "closed_upto n (I_Close k r) = k"
| "closed_upto n (I_Done r) = n"
| "closed_upto n _ = 0"

text \<open>There are \<open>n\<close> agents; channel \<open>i\<close> is closed exactly when the deferred loop has passed
  it; and the only panic a run can reach is that of \<^verbatim>\<open>uuid.Must\<close>, when the action hands it an
  error: no send finds its channel closed and no channel is closed twice.\<close>

definition inv_chans :: "nat \<Rightarrow> ('ev, 'msg) state \<Rightarrow> bool" where
  "inv_chans n s \<longleftrightarrow>
     length (workers s) = n \<and> closed_upto n (ipc s) \<le> n \<and>
     (\<forall>i<n. closed (input (workers s ! i)) \<longleftrightarrow> i < closed_upto n (ipc s)) \<and>
     (\<forall>p. panicked s = Some p \<longrightarrow> (\<exists>e msg. p = MustPanic e \<and> ipc s = I_Tag msg))"

text \<open>What a goroutine returns or has returned, by its program counter. The context's error
  is one of the two of package \<^verbatim>\<open>context\<close>, and an error returned or recorded is the
  context's.\<close>

fun ipc_ret :: "('ev, 'msg) ipc \<Rightarrow> error option" where
  "ipc_ret (I_Close k r) = r"
| "ipc_ret (I_Done r) = r"
| "ipc_ret _ = None"

fun wpc_ret :: "wpc \<Rightarrow> error option" where
  "wpc_ret (W_Done r) = r"
| "wpc_ret _ = None"

definition inv_err :: "('ev, 'msg) state \<Rightarrow> bool" where
  "inv_err s \<longleftrightarrow>
     (ctx_err s = None \<or> ctx_err s = Some Canceled \<or> ctx_err s = Some DeadlineExceeded) \<and>
     (grp_err s = None \<or> grp_err s = ctx_err s) \<and>
     (ipc_ret (ipc s) = None \<or> ipc_ret (ipc s) = ctx_err s) \<and>
     (\<forall>i<length (workers s). wpc_ret (wpc (workers s ! i)) = None \<or>
        wpc_ret (wpc (workers s ! i)) = ctx_err s)"

text \<open>The group records an error only when a goroutine has returned one.\<close>

definition some_failed :: "worker list \<Rightarrow> bool" where
  "some_failed ws \<longleftrightarrow> (\<exists>j<length ws. \<exists>e. wpc (ws ! j) = W_Done (Some e))"

definition inv_grp :: "('ev, 'msg) state \<Rightarrow> bool" where
  "inv_grp s \<longleftrightarrow>
     (grp_err s \<noteq> None \<longrightarrow> (\<exists>e. ipc s = I_Done (Some e)) \<or> some_failed (workers s))"

text \<open>The errors of the events that \<^verbatim>\<open>ToMessage\<close> rejects, in the order of the events, and the
  errors that the log reports for conversions.\<close>

fun failed :: "('ev, 'msg, 'resp) deps \<Rightarrow> 'ev list \<Rightarrow> error list" where
  "failed D [] = []"
| "failed D (e # es) =
     (case ToMessage D e of Inl err \<Rightarrow> err # failed D es | Inr m \<Rightarrow> failed D es)"

fun conv_errors :: "logentry list \<Rightarrow> error list" where
  "conv_errors [] = []"
| "conv_errors (LogError t e # ls) =
     (if t = ''error converting tx event to message'' then e # conv_errors ls else conv_errors ls)"
| "conv_errors (LogInfo t # ls) = conv_errors ls"
| "conv_errors (LogInfof t # ls) = conv_errors ls"

text \<open>The payload converted and not yet allocated, and the events still to convert.\<close>

fun ip_msgs :: "('ev, 'msg) ipc \<Rightarrow> 'msg list" where
  "ip_msgs (I_Tag msg) = [msg]"
| "ip_msgs _ = []"

fun rest_ok :: "('ev, 'msg) ipc \<Rightarrow> 'ev list \<Rightarrow> 'ev list \<Rightarrow> bool" where
  "rest_ok (I_Check tx) rest ts = (rest = tx # ts)"
| "rest_ok (I_Convert tx) rest ts = (rest = tx # ts)"
| "rest_ok (I_Close k r) rest ts = (r = None \<longrightarrow> rest = [] \<and> ts = [])"
| "rest_ok (I_Done r) rest ts = (r = None \<longrightarrow> rest = [] \<and> ts = [])"
| "rest_ok _ rest ts = (rest = ts)"

text \<open>The events of the source split into those converted and the rest; the requests
  allocated carry the payloads of the former, and the log their conversion errors.\<close>

definition inv_src :: "('ev, 'msg, 'resp) deps \<Rightarrow> 'ev list \<Rightarrow> ('ev, 'msg) state \<Rightarrow> bool" where
  "inv_src D evs s \<longleftrightarrow>
     (\<exists>done rest. evs = done @ rest \<and> rest_ok (ipc s) rest (txs s) \<and>
        translated D done = map Event (heap s) @ ip_msgs (ipc s) \<and>
        failed D done = conv_errors (logs s))"

text \<open>How many requests the ingestion goroutine has sent on channel \<open>i\<close>, by its program
  counter and the number \<open>h\<close> of requests allocated: all of them, but the last one while
  the loop of lines 93-95 has not reached channel \<open>i\<close>.\<close>

fun sent :: "('ev, 'msg) ipc \<Rightarrow> nat \<Rightarrow> nat \<Rightarrow> nat" where
  "sent (I_Send p k) h i = (if i < k then h else h - 1)"
| "sent _ h i = h"

text \<open>The requests a goroutine has taken from its channel without calling \<^verbatim>\<open>Evaluate\<close>.\<close>

fun gap_ok :: "wpc \<Rightarrow> addr list \<Rightarrow> chan \<Rightarrow> bool" where
  "gap_ok W_Recv g c = (g = [])"
| "gap_ok (W_Check p) g c = (g = [p])"
| "gap_ok (W_Invoke p) g c = (g = [p])"
| "gap_ok (W_Call p dl) g c = (g = [])"
| "gap_ok (W_Done r) g c = (length g \<le> 1 \<and> (r = None \<longrightarrow> g = [] \<and> buf c = [] \<and> closed c))"

text \<open>The pointers that have gone through the channel of an agent are \<open>0, ..., m - 1\<close>: first
  those \<^verbatim>\<open>Evaluate\<close> was called with, then the one in hand, then those still queued.\<close>

definition queue_ok :: "nat \<Rightarrow> worker \<Rightarrow> bool" where
  "queue_ok m w \<longleftrightarrow> (\<exists>g. calls w @ g @ buf (input w) = [0..<m] \<and> gap_ok (wpc w) g (input w))"

definition inv_queue :: "nat \<Rightarrow> ('ev, 'msg) state \<Rightarrow> bool" where
  "inv_queue n s \<longleftrightarrow>
     (\<forall>p k. ipc s = I_Send p k \<longrightarrow> Suc p = length (heap s) \<and> k \<le> n) \<and>
     (\<forall>i<n. queue_ok (sent (ipc s) (length (heap s)) i) (workers s ! i))"

definition invar :: "('ev, 'msg, 'resp) deps \<Rightarrow> 'ev list \<Rightarrow> nat \<Rightarrow> ('ev, 'msg) state \<Rightarrow> bool" where
  "invar D evs n s \<longleftrightarrow>
     inv_chans n s \<and> inv_err s \<and> inv_grp s \<and> inv_src D evs s \<and> inv_queue n s"

text \<open>A small instance for the examples below: event \<open>0\<close> is malformed, response \<open>0\<close> cannot be
  rendered.\<close>

definition ex_deps :: "(nat, nat, nat) deps" where
  "ex_deps =
     \<lparr>ToMessage = (\<lambda>tx. if tx = 0 then Inl (Failure ''malformed'') else Inr tx),
      MarshalToString = (\<lambda>resp. if resp = 0 then Inl (Failure ''unmarshalable'') else Inr ''ok'')\<rparr>"


text \<open>The ingestion goroutine has found \<^verbatim>\<open>TxChannel\<close> closed and empty, or is about to: it is
  at the head of its loop with nothing left to read, or in the deferred loop returning
  \<^verbatim>\<open>nil\<close>, or has returned \<^verbatim>\<open>nil\<close>.\<close>

fun drain_pc :: "('ev, 'msg) ipc \<Rightarrow> bool \<Rightarrow> bool" where
  "drain_pc I_Recv b = b"
| "drain_pc (I_Close k r) b = (r = None)"
| "drain_pc (I_Done r) b = (r = None)"
| "drain_pc _ b = False"

definition draining :: "('ev, 'msg) state \<Rightarrow> bool" where
  "draining s \<longleftrightarrow> drain_pc (ipc s) (txs s = [] \<and> src_closed s)"

text \<open>A bound on the number of steps the goroutines can still take: for the ingestion
  goroutine, what is left of the current iteration and of the deferred loop, and \<open>5 * n + 5\<close>
  for each event still to read (its \<open>n + 5\<close> steps, and the steps of the agents on the \<open>n\<close>
  pointers placed); for the goroutine of an agent, what is left of the current iteration and
  four steps for each pointer queued.\<close>

fun ipc_fuel :: "nat \<Rightarrow> ('ev, 'msg) ipc \<Rightarrow> nat" where
  "ipc_fuel n I_Recv = n + 2"
| "ipc_fuel n (I_Check tx) = 6 * n + 6"
| "ipc_fuel n (I_Convert tx) = 6 * n + 5"
| "ipc_fuel n (I_Tag msg) = 6 * n + 4"
| "ipc_fuel n (I_Send p k) = 5 * (n - k) + n + 3"
| "ipc_fuel n (I_Close k r) = n + 1 - k"
| "ipc_fuel n (I_Done r) = 0"

fun wpc_fuel :: "wpc \<Rightarrow> nat" where
  "wpc_fuel W_Recv = 1"
| "wpc_fuel (W_Check p) = 4"
| "wpc_fuel (W_Invoke p) = 3"
| "wpc_fuel (W_Call p dl) = 2"
| "wpc_fuel (W_Done r) = 0"

definition worker_fuel :: "worker \<Rightarrow> nat" where
  "worker_fuel w = 4 * length (buf (input w)) + wpc_fuel (wpc w)"

definition fuel :: "nat \<Rightarrow> ('ev, 'msg) state \<Rightarrow> nat" where
  "fuel n s =
     (if panicked s \<noteq> None then 0
      else (5 * n + 5) * length (txs s) + ipc_fuel n (ipc s) +
        sum_list (map worker_fuel (workers s)))"

fun is_task :: "'resp action \<Rightarrow> bool" where
  "is_task (Ingest u) = True"
| "is_task (Work i a) = True"
| "is_task _ = False"

text \<open>An error returned by the goroutine of an agent is recorded by the group.\<close>

definition inv_rec :: "('ev, 'msg) state \<Rightarrow> bool" where
  "inv_rec s \<longleftrightarrow> (some_failed (workers s) \<longrightarrow> grp_err s \<noteq> None)"

text \<open>The number of steps of a run at which channel \<open>i\<close> goes from open to closed.\<close>

fun closes :: "('ev, 'msg, 'resp) deps \<Rightarrow> nat \<Rightarrow> 'resp action list \<Rightarrow> ('ev, 'msg) state \<Rightarrow> nat" where
  "closes D i [] s = 0"
| "closes D i (act # acts) s =
     (case step D act s of
        None \<Rightarrow> 0
      | Some s' \<Rightarrow>
          (if \<not> closed (input (workers s ! i)) \<and> closed (input (workers s' ! i)) then 1 else 0) +
          closes D i acts s')"



section \<open>Steps of the two loops\<close>

lemma step_simps:
  "panicked s = None \<Longrightarrow> step D (Ingest u) s = ingest_step D u s"
  "panicked s = None \<Longrightarrow> step D (Work i a) s = worker_step D i a s"
  by (simp_all add: step_def)

text \<open>Every transition of the ingestion goroutine, and of the goroutine of an agent.\<close>

lemma ingest_step_cases [consumes 1, case_names recv eof check_err check_ok conv_err conv_ok must_panic tag send_panic send send_end close_panic close close_end]:
  assumes "ingest_step D u s = Some s'"
  obtains
    (recv) tx rest where "ipc s = I_Recv" "txs s = tx # rest" "s' = s\<lparr>txs := rest, ipc := I_Check tx\<rparr>"
  | (eof) "ipc s = I_Recv" "txs s = []" "src_closed s" "s' = s\<lparr>ipc := I_Close 0 None\<rparr>"
  | (check_err) tx e where "ipc s = I_Check tx" "ctx_err s = Some e" "s' = s\<lparr>ipc := I_Close 0 (Some e)\<rparr>"
  | (check_ok) tx where "ipc s = I_Check tx" "ctx_err s = None" "s' = s\<lparr>ipc := I_Convert tx\<rparr>"
  | (conv_err) tx e where "ipc s = I_Convert tx" "ToMessage D tx = Inl e"
      "s' = s\<lparr>logs := logs s @ [LogError ''error converting tx event to message'' e], ipc := I_Recv\<rparr>"
  | (conv_ok) tx msg where "ipc s = I_Convert tx" "ToMessage D tx = Inr msg" "s' = s\<lparr>ipc := I_Tag msg\<rparr>"
  | (must_panic) msg e where "ipc s = I_Tag msg" "u = Inl e" "s' = s\<lparr>panicked := Some (MustPanic e)\<rparr>"
  | (tag) msg rid where "ipc s = I_Tag msg" "u = Inr rid"
      "s' = s\<lparr>heap := heap s @ [\<lparr>RequestId = rid, Event = msg\<rparr>], ipc := I_Send (length (heap s)) 0\<rparr>"
  | (send_panic) p k where "ipc s = I_Send p k" "k < length (workers s)" "closed (input (workers s ! k))"
      "s' = s\<lparr>panicked := Some SendOnClosedChannel\<rparr>"
  | (send) p k where "ipc s = I_Send p k" "k < length (workers s)" "\<not> closed (input (workers s ! k))"
      "length (buf (input (workers s ! k))) < chan_cap"
      "s' = set_input k ((input (workers s ! k))\<lparr>buf := buf (input (workers s ! k)) @ [p]\<rparr>) (s\<lparr>ipc := I_Send p (Suc k)\<rparr>)"
  | (send_end) p k where "ipc s = I_Send p k" "\<not> k < length (workers s)" "s' = s\<lparr>ipc := I_Recv\<rparr>"
  | (close_panic) k r where "ipc s = I_Close k r" "k < length (workers s)" "closed (input (workers s ! k))"
      "s' = s\<lparr>panicked := Some CloseOfClosedChannel\<rparr>"
  | (close) k r where "ipc s = I_Close k r" "k < length (workers s)" "\<not> closed (input (workers s ! k))"
      "s' = set_input k ((input (workers s ! k))\<lparr>closed := True\<rparr>) (s\<lparr>ipc := I_Close (Suc k) r\<rparr>)"
  | (close_end) k r where "ipc s = I_Close k r" "\<not> k < length (workers s)" "s' = task_return r (s\<lparr>ipc := I_Done r\<rparr>)"
proof (cases "ipc s")
  case I_Recv
  with assms recv eof show ?thesis
    by (cases "txs s") (simp_all add: ingest_step_def split: if_splits)
next
  case (I_Check tx)
  with assms check_err check_ok show ?thesis
    by (cases "ctx_err s") (simp_all add: ingest_step_def)
next
  case (I_Convert tx)
  with assms conv_err conv_ok show ?thesis
    by (cases "ToMessage D tx") (simp_all add: ingest_step_def)
next
  case (I_Tag msg)
  with assms must_panic tag show ?thesis
    by (cases u) (simp_all add: ingest_step_def)
next
  case (I_Send p k)
  with assms send_panic send send_end show ?thesis
    by (simp add: ingest_step_def Let_def split: if_splits)
next
  case (I_Close k r)
  with assms close_panic close close_end show ?thesis
    by (simp add: ingest_step_def Let_def split: if_splits)
next
  case (I_Done r)
  with assms show ?thesis by (simp add: ingest_step_def)
qed

lemma worker_step_cases [consumes 1, case_names recv eof check_err check_ok invoke call_err marshal_err success]:
  assumes "worker_step D i a s = Some s'"
  obtains
    (recv) p rest where "i < length (workers s)" "wpc (workers s ! i) = W_Recv" "buf (input (workers s ! i)) = p # rest"
      "s' = set_worker i ((workers s ! i)\<lparr>input := (input (workers s ! i))\<lparr>buf := rest\<rparr>, wpc := W_Check p\<rparr>) s"
  | (eof) "i < length (workers s)" "wpc (workers s ! i) = W_Recv" "buf (input (workers s ! i)) = []"
      "closed (input (workers s ! i))"
      "s' = task_return None (set_worker i ((workers s ! i)\<lparr>wpc := W_Done None\<rparr>) s)"
  | (check_err) p e where "i < length (workers s)" "wpc (workers s ! i) = W_Check p" "ctx_err s = Some e"
      "s' = task_return (Some e) (set_worker i ((workers s ! i)\<lparr>wpc := W_Done (Some e)\<rparr>) s)"
  | (check_ok) p where "i < length (workers s)" "wpc (workers s ! i) = W_Check p" "ctx_err s = None"
      "s' = set_worker i ((workers s ! i)\<lparr>wpc := W_Invoke p\<rparr>) s"
  | (invoke) p where "i < length (workers s)" "wpc (workers s ! i) = W_Invoke p"
      "s' = set_worker i ((workers s ! i)\<lparr>wpc := W_Call p (now s + call_timeout), calls := calls (workers s ! i) @ [p]\<rparr>) s"
  | (call_err) p dl e where "i < length (workers s)" "wpc (workers s ! i) = W_Call p dl" "a = Inl e"
      "s' = log_line (LogError ''error invoking agent'' e) (set_worker i ((workers s ! i)\<lparr>wpc := W_Recv\<rparr>) s)"
  | (marshal_err) p dl resp e where "i < length (workers s)" "wpc (workers s ! i) = W_Call p dl" "a = Inr resp"
      "\<not> call_ctx_done s dl" "MarshalToString D resp = Inl e"
      "s' = log_line (LogError ''error marshaling response'' e) (set_worker i ((workers s ! i)\<lparr>wpc := W_Recv\<rparr>) s)"
  | (success) p dl resp resStr where "i < length (workers s)" "wpc (workers s ! i) = W_Call p dl" "a = Inr resp"
      "\<not> call_ctx_done s dl" "MarshalToString D resp = Inr resStr"
      "s' = log_line (LogInfof resStr) (set_worker i ((workers s ! i)\<lparr>wpc := W_Recv\<rparr>) s)"
proof -
  from assms have i: "i < length (workers s)"
    by (simp add: worker_step_def split: if_splits)
  show ?thesis
  proof (cases "wpc (workers s ! i)")
    case W_Recv
    with assms i recv eof show ?thesis
      by (cases "buf (input (workers s ! i))") (simp_all add: worker_step_def Let_def split: if_splits)
  next
    case (W_Check p)
    with assms i check_err check_ok show ?thesis
      by (cases "ctx_err s") (simp_all add: worker_step_def Let_def)
  next
    case (W_Invoke p)
    with assms i invoke show ?thesis
      by (simp add: worker_step_def Let_def)
  next
    case (W_Call p dl)
    show ?thesis
    proof (cases a)
      case (Inl e)
      with W_Call assms i call_err show ?thesis
        by (simp add: worker_step_def Let_def)
    next
      case (Inr resp)
      with W_Call assms i marshal_err success show ?thesis
        by (cases "MarshalToString D resp") (simp_all add: worker_step_def Let_def split: if_splits)
    qed
  next
    case (W_Done r)
    with assms i show ?thesis by (simp add: worker_step_def Let_def)
  qed
qed

lemma cancel_with_simps [simp]:
  "txs (cancel_with e s) = txs s"
  "src_closed (cancel_with e s) = src_closed s"
  "ipc (cancel_with e s) = ipc s"
  "workers (cancel_with e s) = workers s"
  "heap (cancel_with e s) = heap s"
  "grp_err (cancel_with e s) = grp_err s"
  "logs (cancel_with e s) = logs s"
  "panicked (cancel_with e s) = panicked s"
  "now (cancel_with e s) = now s"
  "ctx_err (cancel_with e s) = (case ctx_err s of None \<Rightarrow> Some e | Some c \<Rightarrow> Some c)"
  by (simp_all add: cancel_with_def split: option.splits)

lemma task_return_simps [simp]:
  "txs (task_return r s) = txs s"
  "src_closed (task_return r s) = src_closed s"
  "ipc (task_return r s) = ipc s"
  "workers (task_return r s) = workers s"
  "heap (task_return r s) = heap s"
  "logs (task_return r s) = logs s"
  "panicked (task_return r s) = panicked s"
  "now (task_return r s) = now s"
  "grp_err (task_return r s) =
     (case r of None \<Rightarrow> grp_err s | Some e \<Rightarrow> (case grp_err s of None \<Rightarrow> Some e | Some g \<Rightarrow> Some g))"
  "ctx_err (task_return r s) =
     (case r of None \<Rightarrow> ctx_err s | Some e \<Rightarrow> (case ctx_err s of None \<Rightarrow> Some Canceled | Some c \<Rightarrow> Some c))"
  by (simp_all add: task_return_def split: option.splits)

lemma set_input_simps [simp]:
  "txs (set_input k c s) = txs s"
  "src_closed (set_input k c s) = src_closed s"
  "ipc (set_input k c s) = ipc s"
  "workers (set_input k c s) = (workers s)[k := (workers s ! k)\<lparr>input := c\<rparr>]"
  "heap (set_input k c s) = heap s"
  "ctx_err (set_input k c s) = ctx_err s"
  "grp_err (set_input k c s) = grp_err s"
  "logs (set_input k c s) = logs s"
  "panicked (set_input k c s) = panicked s"
  "now (set_input k c s) = now s"
  by (simp_all add: set_input_def)

lemma set_worker_simps [simp]:
  "txs (set_worker i w s) = txs s"
  "src_closed (set_worker i w s) = src_closed s"
  "ipc (set_worker i w s) = ipc s"
  "workers (set_worker i w s) = (workers s)[i := w]"
  "heap (set_worker i w s) = heap s"
  "ctx_err (set_worker i w s) = ctx_err s"
  "grp_err (set_worker i w s) = grp_err s"
  "logs (set_worker i w s) = logs s"
  "panicked (set_worker i w s) = panicked s"
  "now (set_worker i w s) = now s"
  by (simp_all add: set_worker_def)

lemma log_line_simps [simp]:
  "txs (log_line l s) = txs s"
  "src_closed (log_line l s) = src_closed s"
  "ipc (log_line l s) = ipc s"
  "workers (log_line l s) = workers s"
  "heap (log_line l s) = heap s"
  "ctx_err (log_line l s) = ctx_err s"
  "grp_err (log_line l s) = grp_err s"
  "logs (log_line l s) = logs s @ [l]"
  "panicked (log_line l s) = panicked s"
  "now (log_line l s) = now s"
  by (simp_all add: log_line_def)

text \<open>Every transition of a run.\<close>

lemma step_cases [consumes 1, case_names i_recv i_eof i_check_err i_check_ok i_conv_err i_conv_ok
    i_must_panic i_tag i_send_panic i_send i_send_end i_close_panic i_close i_close_end
    w_recv w_eof w_check_err w_check_ok w_invoke w_call_err w_marshal_err w_success
    cancel expire tick]:
  assumes "step D act s = Some s'"
  obtains
    (i_recv) tx rest where "ipc s = I_Recv" "txs s = tx # rest" "s' = s\<lparr>txs := rest, ipc := I_Check tx\<rparr>"
  | (i_eof) "ipc s = I_Recv" "txs s = []" "src_closed s" "s' = s\<lparr>ipc := I_Close 0 None\<rparr>"
  | (i_check_err) tx e where "ipc s = I_Check tx" "ctx_err s = Some e" "s' = s\<lparr>ipc := I_Close 0 (Some e)\<rparr>"
  | (i_check_ok) tx where "ipc s = I_Check tx" "ctx_err s = None" "s' = s\<lparr>ipc := I_Convert tx\<rparr>"
  | (i_conv_err) tx e where "ipc s = I_Convert tx" "ToMessage D tx = Inl e"
      "s' = s\<lparr>logs := logs s @ [LogError ''error converting tx event to message'' e], ipc := I_Recv\<rparr>"
  | (i_conv_ok) tx msg where "ipc s = I_Convert tx" "ToMessage D tx = Inr msg" "s' = s\<lparr>ipc := I_Tag msg\<rparr>"
  | (i_must_panic) msg e where "ipc s = I_Tag msg" "s' = s\<lparr>panicked := Some (MustPanic e)\<rparr>"
  | (i_tag) msg rid where "ipc s = I_Tag msg"
      "s' = s\<lparr>heap := heap s @ [\<lparr>RequestId = rid, Event = msg\<rparr>], ipc := I_Send (length (heap s)) 0\<rparr>"
  | (i_send_panic) p k where "ipc s = I_Send p k" "k < length (workers s)" "closed (input (workers s ! k))"
      "s' = s\<lparr>panicked := Some SendOnClosedChannel\<rparr>"
  | (i_send) p k where "ipc s = I_Send p k" "k < length (workers s)" "\<not> closed (input (workers s ! k))"
      "length (buf (input (workers s ! k))) < chan_cap"
      "s' = set_input k ((input (workers s ! k))\<lparr>buf := buf (input (workers s ! k)) @ [p]\<rparr>) (s\<lparr>ipc := I_Send p (Suc k)\<rparr>)"
  | (i_send_end) p k where "ipc s = I_Send p k" "\<not> k < length (workers s)" "s' = s\<lparr>ipc := I_Recv\<rparr>"
  | (i_close_panic) k r where "ipc s = I_Close k r" "k < length (workers s)" "closed (input (workers s ! k))"
      "s' = s\<lparr>panicked := Some CloseOfClosedChannel\<rparr>"
  | (i_close) k r where "ipc s = I_Close k r" "k < length (workers s)" "\<not> closed (input (workers s ! k))"
      "s' = set_input k ((input (workers s ! k))\<lparr>closed := True\<rparr>) (s\<lparr>ipc := I_Close (Suc k) r\<rparr>)"
  | (i_close_end) k r where "ipc s = I_Close k r" "\<not> k < length (workers s)" "s' = task_return r (s\<lparr>ipc := I_Done r\<rparr>)"
  | (w_recv) i p rest where "i < length (workers s)" "wpc (workers s ! i) = W_Recv" "buf (input (workers s ! i)) = p # rest"
      "s' = set_worker i ((workers s ! i)\<lparr>input := (input (workers s ! i))\<lparr>buf := rest\<rparr>, wpc := W_Check p\<rparr>) s"
  | (w_eof) i where "i < length (workers s)" "wpc (workers s ! i) = W_Recv" "buf (input (workers s ! i)) = []"
      "closed (input (workers s ! i))"
      "s' = task_return None (set_worker i ((workers s ! i)\<lparr>wpc := W_Done None\<rparr>) s)"
  | (w_check_err) i p e where "i < length (workers s)" "wpc (workers s ! i) = W_Check p" "ctx_err s = Some e"
      "s' = task_return (Some e) (set_worker i ((workers s ! i)\<lparr>wpc := W_Done (Some e)\<rparr>) s)"
  | (w_check_ok) i p where "i < length (workers s)" "wpc (workers s ! i) = W_Check p" "ctx_err s = None"
      "s' = set_worker i ((workers s ! i)\<lparr>wpc := W_Invoke p\<rparr>) s"
  | (w_invoke) i p where "i < length (workers s)" "wpc (workers s ! i) = W_Invoke p"
      "s' = set_worker i ((workers s ! i)\<lparr>wpc := W_Call p (now s + call_timeout), calls := calls (workers s ! i) @ [p]\<rparr>) s"
  | (w_call_err) i p dl e where "i < length (workers s)" "wpc (workers s ! i) = W_Call p dl"
      "s' = log_line (LogError ''error invoking agent'' e) (set_worker i ((workers s ! i)\<lparr>wpc := W_Recv\<rparr>) s)"
  | (w_marshal_err) i p dl e where "i < length (workers s)" "wpc (workers s ! i) = W_Call p dl"
      "s' = log_line (LogError ''error marshaling response'' e) (set_worker i ((workers s ! i)\<lparr>wpc := W_Recv\<rparr>) s)"
  | (w_success) i p dl resStr where "i < length (workers s)" "wpc (workers s ! i) = W_Call p dl"
      "s' = log_line (LogInfof resStr) (set_worker i ((workers s ! i)\<lparr>wpc := W_Recv\<rparr>) s)"
  | (cancel) "s' = cancel_with Canceled s"
  | (expire) "s' = cancel_with DeadlineExceeded s"
  | (tick) d where "s' = s\<lparr>now := now s + d\<rparr>"
proof -
  from assms have np: "panicked s = None"
    by (simp add: step_def split: if_splits)
  show ?thesis
  proof (cases act)
    case (Ingest u)
    with assms np have "ingest_step D u s = Some s'" by (simp add: step_def)
    then show ?thesis
    proof (cases rule: ingest_step_cases)
      case recv then show ?thesis using i_recv by blast
    next
      case eof then show ?thesis using i_eof by blast
    next
      case check_err then show ?thesis using i_check_err by blast
    next
      case check_ok then show ?thesis using i_check_ok by blast
    next
      case conv_err then show ?thesis using i_conv_err by blast
    next
      case conv_ok then show ?thesis using i_conv_ok by blast
    next
      case must_panic then show ?thesis using i_must_panic by blast
    next
      case tag then show ?thesis using i_tag by blast
    next
      case send_panic then show ?thesis using i_send_panic by blast
    next
      case send then show ?thesis using i_send by blast
    next
      case send_end then show ?thesis using i_send_end by blast
    next
      case close_panic then show ?thesis using i_close_panic by blast
    next
      case close then show ?thesis using i_close by blast
    next
      case close_end then show ?thesis using i_close_end by blast
    qed
  next
    case (Work i a)
    with assms np have "worker_step D i a s = Some s'" by (simp add: step_def)
    then show ?thesis
    proof (cases rule: worker_step_cases)
      case recv then show ?thesis using w_recv by blast
    next
      case eof then show ?thesis using w_eof by blast
    next
      case check_err then show ?thesis using w_check_err by blast
    next
      case check_ok then show ?thesis using w_check_ok by blast
    next
      case invoke then show ?thesis using w_invoke by blast
    next
      case call_err then show ?thesis using w_call_err by blast
    next
      case marshal_err then show ?thesis using w_marshal_err by blast
    next
      case success then show ?thesis using w_success by blast
    qed
  next
    case Cancel
    with assms np cancel show ?thesis by (auto simp add: step_def)
  next
    case Expire
    with assms np expire show ?thesis by (auto simp add: step_def)
  next
    case (Tick d)
    with assms np tick show ?thesis by (auto simp add: step_def)
  qed
qed

lemma run_append: "run D (as @ bs) s = (case run D as s of None \<Rightarrow> None | Some s' \<Rightarrow> run D bs s')"
  by (induction as arbitrary: s) (auto split: option.splits)

lemma run_invariant:
  assumes "run D acts s = Some s'" and "P s"
    and "\<And>act t t'. P t \<Longrightarrow> step D act t = Some t' \<Longrightarrow> P t'"
  shows "P s'"
  using assms(1,2)
proof (induction acts arbitrary: s)
  case Nil
  then show ?case by simp
next
  case (Cons act acts)
  then show ?case using assms(3) by (auto split: option.splits)
qed

section \<open>Invariants of a run\<close>

lemma step_not_panicked: "step D act s = Some s' \<Longrightarrow> panicked s = None"
  by (simp add: step_def split: if_splits)

subsection \<open>The channels are closed by the deferred loop only\<close>

lemma inv_chans_init: "inv_chans n (init evs cl n)"
  by (simp add: inv_chans_def init_def new_worker_def)

lemma inv_chans_step:
  assumes "inv_chans n s" and "step D act s = Some s'"
  shows "inv_chans n s'"
proof -
  note np = step_not_panicked [OF assms(2)]
  from assms(2) show ?thesis
  proof (cases rule: step_cases)
  case (i_close k r)
  with assms(1) show ?thesis
    by (auto simp: inv_chans_def nth_list_update less_Suc_eq)
next
  case (i_close_end k r)
  with assms(1) show ?thesis
    by (auto simp: inv_chans_def)
  qed (use assms(1) np in \<open>auto simp: inv_chans_def nth_list_update\<close>)
qed

subsection \<open>Only the error of the context is ever returned\<close>

lemma inv_err_init: "inv_err (init evs cl n)"
  by (simp add: inv_err_def init_def new_worker_def)

lemma inv_err_step:
  assumes "inv_err s" and "step D act s = Some s'"
  shows "inv_err s'"
  using assms(2)
proof (cases rule: step_cases)
  case (i_close_end k r)
  with assms(1) show ?thesis
    by (cases r) (auto simp: inv_err_def split: option.splits)
qed (use assms(1) in \<open>auto simp: inv_err_def nth_list_update split: option.splits\<close>)

lemma some_failed_update:
  assumes "some_failed ws" and "i < length ws" and "\<not> is_done (wpc (ws ! i))"
  shows "some_failed (ws[i := w])"
proof -
  from assms(1) obtain j e where j: "j < length ws" "wpc (ws ! j) = W_Done (Some e)"
    by (auto simp: some_failed_def)
  with assms(3) have "j \<noteq> i" by auto
  with j show ?thesis by (auto simp: some_failed_def)
qed

lemma some_failed_input:
  assumes "some_failed ws"
  shows "some_failed (ws[i := (ws ! i)\<lparr>input := c\<rparr>])"
proof -
  from assms(1) obtain j e where j: "j < length ws" "wpc (ws ! j) = W_Done (Some e)"
    by (auto simp: some_failed_def)
  then have "wpc ((ws[i := (ws ! i)\<lparr>input := c\<rparr>]) ! j) = W_Done (Some e)"
    by (cases "i = j") simp_all
  with j(1) show ?thesis unfolding some_failed_def by (metis length_list_update)
qed

lemma some_failed_new:
  assumes "i < length ws" and "wpc w = W_Done (Some e)"
  shows "some_failed (ws[i := w])"
  using assms unfolding some_failed_def by (metis length_list_update nth_list_update_eq)

lemma inv_grp_init: "inv_grp (init evs cl n)"
  by (simp add: inv_grp_def init_def)

lemma inv_grp_step:
  assumes "inv_grp s" and "step D act s = Some s'"
  shows "inv_grp s'"
  using assms(2)
proof (cases rule: step_cases)
  case (i_close_end k r)
  with assms(1) show ?thesis
    by (cases r) (auto simp: inv_grp_def split: option.splits)
next
  case (i_send p k)
  with assms(1) show ?thesis
    by (auto simp: inv_grp_def some_failed_input)
next
  case (i_close k r)
  with assms(1) show ?thesis
    by (auto simp: inv_grp_def some_failed_input)
next
  case (w_recv i p rest)
  with assms(1) show ?thesis
    by (auto simp: inv_grp_def some_failed_update)
next
  case (w_eof i)
  with assms(1) show ?thesis
    by (auto simp: inv_grp_def some_failed_update)
next
  case (w_check_err i p e)
  with assms(1) show ?thesis
    by (auto simp: inv_grp_def some_failed_new)
next
  case (w_check_ok i p)
  with assms(1) show ?thesis
    by (auto simp: inv_grp_def some_failed_update)
next
  case (w_invoke i p)
  with assms(1) show ?thesis
    by (auto simp: inv_grp_def some_failed_update)
next
  case (w_call_err i p dl e)
  with assms(1) show ?thesis
    by (auto simp: inv_grp_def some_failed_update)
next
  case (w_marshal_err i p dl e)
  with assms(1) show ?thesis
    by (auto simp: inv_grp_def some_failed_update)
next
  case (w_success i p dl resStr)
  with assms(1) show ?thesis
    by (auto simp: inv_grp_def some_failed_update)
qed (use assms(1) in \<open>auto simp: inv_grp_def\<close>)

subsection \<open>The requests allocated are the translations of the events read\<close>

lemma translated_append: "translated D (xs @ ys) = translated D xs @ translated D ys"
  by (induction xs) (auto split: sum.splits)

lemma failed_append: "failed D (xs @ ys) = failed D xs @ failed D ys"
  by (induction xs) (auto split: sum.splits)

lemma conv_errors_append: "conv_errors (xs @ ys) = conv_errors xs @ conv_errors ys"
  by (induction xs rule: conv_errors.induct) auto

lemma inv_src_init: "inv_src D evs (init evs cl n)"
  unfolding inv_src_def by (rule exI [of _ "[]"]) (simp add: init_def)

lemma inv_src_frame:
  assumes "inv_src D evs s" and "txs s' = txs s" and "ipc s' = ipc s" and "heap s' = heap s"
    and "conv_errors (logs s') = conv_errors (logs s)"
  shows "inv_src D evs s'"
  using assms unfolding inv_src_def by simp

lemma inv_src_step:
  assumes "inv_src D evs s" and "step D act s = Some s'"
  shows "inv_src D evs s'"
proof -
  from assms(1) obtain dn rest where
    inv: "evs = dn @ rest" "rest_ok (ipc s) rest (txs s)"
      "translated D dn = map Event (heap s) @ ip_msgs (ipc s)"
      "failed D dn = conv_errors (logs s)"
    unfolding inv_src_def by blast
  from assms(2) show ?thesis
  proof (cases rule: step_cases)
    case (i_recv tx rest')
    with inv show ?thesis unfolding inv_src_def
      by (intro exI [of _ dn] exI [of _ rest]) simp
  next
    case i_eof
    with inv show ?thesis unfolding inv_src_def
      by (intro exI [of _ dn] exI [of _ rest]) simp
  next
    case (i_check_err tx e)
    with inv show ?thesis unfolding inv_src_def
      by (intro exI [of _ dn] exI [of _ rest]) simp
  next
    case (i_check_ok tx)
    with inv show ?thesis unfolding inv_src_def
      by (intro exI [of _ dn] exI [of _ rest]) simp
  next
    case (i_conv_err tx e)
    with inv show ?thesis unfolding inv_src_def
      by (intro exI [of _ "dn @ [tx]"] exI [of _ "txs s"])
        (simp add: translated_append failed_append conv_errors_append)
  next
    case (i_conv_ok tx msg)
    with inv show ?thesis unfolding inv_src_def
      by (intro exI [of _ "dn @ [tx]"] exI [of _ "txs s"])
        (simp add: translated_append failed_append conv_errors_append)
  next
    case (i_must_panic msg e)
    with inv show ?thesis unfolding inv_src_def
      by (intro exI [of _ dn] exI [of _ rest]) simp
  next
    case (i_tag msg rid)
    with inv show ?thesis unfolding inv_src_def
      by (intro exI [of _ dn] exI [of _ rest]) simp
  next
    case (i_send_panic p k)
    with inv show ?thesis unfolding inv_src_def
      by (intro exI [of _ dn] exI [of _ rest]) simp
  next
    case (i_send p k)
    with inv show ?thesis unfolding inv_src_def
      by (intro exI [of _ dn] exI [of _ rest]) simp
  next
    case (i_send_end p k)
    with inv show ?thesis unfolding inv_src_def
      by (intro exI [of _ dn] exI [of _ rest]) simp
  next
    case (i_close_panic k r)
    with inv show ?thesis unfolding inv_src_def
      by (intro exI [of _ dn] exI [of _ rest]) simp
  next
    case (i_close k r)
    with inv show ?thesis unfolding inv_src_def
      by (intro exI [of _ dn] exI [of _ rest]) simp
  next
    case (i_close_end k r)
    with inv show ?thesis unfolding inv_src_def
      by (intro exI [of _ dn] exI [of _ rest]) simp
  qed (rule inv_src_frame [OF assms(1)]; simp add: conv_errors_append)+
qed

subsection \<open>Every channel carries the requests in the order of their allocation\<close>

lemma inv_queue_init: "inv_queue n (init evs cl n)"
  by (simp add: inv_queue_def init_def new_worker_def queue_ok_def)

lemma queue_ok_recv:
  assumes "queue_ok m w" and "wpc w = W_Recv" and "buf (input w) = p # rest"
  shows "queue_ok m (w\<lparr>input := (input w)\<lparr>buf := rest\<rparr>, wpc := W_Check p\<rparr>)"
  using assms by (auto simp: queue_ok_def)

lemma queue_ok_eof:
  assumes "queue_ok m w" and "wpc w = W_Recv" and "buf (input w) = []" and "closed (input w)"
  shows "queue_ok m (w\<lparr>wpc := W_Done None\<rparr>)"
  using assms by (auto simp: queue_ok_def)

lemma queue_ok_check_err:
  assumes "queue_ok m w" and "wpc w = W_Check p"
  shows "queue_ok m (w\<lparr>wpc := W_Done (Some e)\<rparr>)"
proof -
  from assms have "calls w @ [p] @ buf (input w) = [0..<m]"
    by (auto simp: queue_ok_def)
  then show ?thesis unfolding queue_ok_def by (intro exI [of _ "[p]"]) simp
qed

lemma queue_ok_check_ok:
  assumes "queue_ok m w" and "wpc w = W_Check p"
  shows "queue_ok m (w\<lparr>wpc := W_Invoke p\<rparr>)"
  using assms by (auto simp: queue_ok_def)

lemma queue_ok_invoke:
  assumes "queue_ok m w" and "wpc w = W_Invoke p"
  shows "queue_ok m (w\<lparr>wpc := W_Call p dl, calls := calls w @ [p]\<rparr>)"
  using assms by (auto simp: queue_ok_def)

lemma queue_ok_return:
  assumes "queue_ok m w" and "wpc w = W_Call p dl"
  shows "queue_ok m (w\<lparr>wpc := W_Recv\<rparr>)"
  using assms by (auto simp: queue_ok_def)

lemma queue_ok_send:
  assumes "queue_ok m w" and "\<not> closed (input w)"
  shows "queue_ok (Suc m) (w\<lparr>input := (input w)\<lparr>buf := buf (input w) @ [m]\<rparr>\<rparr>)"
proof -
  from assms(1) obtain g where g: "calls w @ g @ buf (input w) = [0..<m]" "gap_ok (wpc w) g (input w)"
    by (auto simp: queue_ok_def)
  from g(2) assms(2) have "gap_ok (wpc w) g ((input w)\<lparr>buf := buf (input w) @ [m]\<rparr>)"
    by (cases "wpc w") auto
  moreover from g(1) have "calls w @ g @ (buf (input w) @ [m]) = [0..<Suc m]"
    by (metis append.assoc upt_Suc_append zero_le)
  ultimately show ?thesis unfolding queue_ok_def by auto
qed

lemma queue_ok_close:
  assumes "queue_ok m w"
  shows "queue_ok m (w\<lparr>input := (input w)\<lparr>closed := True\<rparr>\<rparr>)"
proof -
  from assms(1) obtain g where g: "calls w @ g @ buf (input w) = [0..<m]" "gap_ok (wpc w) g (input w)"
    by (auto simp: queue_ok_def)
  from g(2) have "gap_ok (wpc w) g ((input w)\<lparr>closed := True\<rparr>)"
    by (cases "wpc w") auto
  with g(1) show ?thesis unfolding queue_ok_def by auto
qed

lemma inv_queue_step:
  assumes "inv_queue n s" and "inv_chans n s" and "step D act s = Some s'"
  shows "inv_queue n s'"
proof -
  from assms(2) have len: "length (workers s) = n" by (simp add: inv_chans_def)
  from assms(1) have q: "\<And>i. i < n \<Longrightarrow> queue_ok (sent (ipc s) (length (heap s)) i) (workers s ! i)"
    by (simp add: inv_queue_def)
  from assms(3) show ?thesis
  proof (cases rule: step_cases)
    case (i_tag msg rid)
    with q show ?thesis by (simp add: inv_queue_def)
  next
    case (i_send p k)
    from assms(1) i_send(1) have p: "Suc p = length (heap s)" "k \<le> n"
      by (simp_all add: inv_queue_def)
    have "queue_ok (sent (ipc s') (length (heap s')) i) (workers s' ! i)" if "i < n" for i
    proof (cases "i = k")
      case True
      from p have "length (heap s) - 1 = p" by simp
      with q [OF that] i_send(1) True have "queue_ok p (workers s ! k)" by simp
      from queue_ok_send [OF this i_send(3)] True i_send p len that show ?thesis by simp
    next
      case False
      with q [OF that] i_send p len that show ?thesis by (auto simp: less_Suc_eq)
    qed
    with i_send p len show ?thesis by (simp add: inv_queue_def)
  next
    case (i_send_end p k)
    from assms(1) i_send_end(1) have p: "Suc p = length (heap s)" "k \<le> n"
      by (simp_all add: inv_queue_def)
    with i_send_end len have "k = n" by simp
    with q i_send_end show ?thesis by (simp add: inv_queue_def)
  next
    case (i_close k r)
    have "queue_ok (sent (ipc s') (length (heap s')) i) (workers s' ! i)" if "i < n" for i
      using q [OF that] i_close len that queue_ok_close [of _ "workers s ! k"]
      by (cases "i = k") simp_all
    with i_close show ?thesis by (simp add: inv_queue_def)
  next
    case (w_recv i p rest)
    have "queue_ok (sent (ipc s') (length (heap s')) j) (workers s' ! j)" if "j < n" for j
      using q [OF that] w_recv len that queue_ok_recv [of _ "workers s ! i" p rest]
      by (cases "j = i") simp_all
    with w_recv assms(1) show ?thesis by (simp add: inv_queue_def)
  next
    case (w_eof i)
    have "queue_ok (sent (ipc s') (length (heap s')) j) (workers s' ! j)" if "j < n" for j
      using q [OF that] w_eof len that queue_ok_eof [of _ "workers s ! i"]
      by (cases "j = i") simp_all
    with w_eof assms(1) show ?thesis by (simp add: inv_queue_def)
  next
    case (w_check_err i p e)
    have "queue_ok (sent (ipc s') (length (heap s')) j) (workers s' ! j)" if "j < n" for j
      using q [OF that] w_check_err len that queue_ok_check_err [of _ "workers s ! i" p e]
      by (cases "j = i") simp_all
    with w_check_err assms(1) show ?thesis by (simp add: inv_queue_def)
  next
    case (w_check_ok i p)
    have "queue_ok (sent (ipc s') (length (heap s')) j) (workers s' ! j)" if "j < n" for j
      using q [OF that] w_check_ok len that queue_ok_check_ok [of _ "workers s ! i" p]
      by (cases "j = i") simp_all
    with w_check_ok assms(1) show ?thesis by (simp add: inv_queue_def)
  next
    case (w_invoke i p)
    have "queue_ok (sent (ipc s') (length (heap s')) j) (workers s' ! j)" if "j < n" for j
      using q [OF that] w_invoke len that
        queue_ok_invoke [of _ "workers s ! i" p "now s + call_timeout"]
      by (cases "j = i") simp_all
    with w_invoke assms(1) show ?thesis by (simp add: inv_queue_def)
  next
    case (w_call_err i p dl e)
    have "queue_ok (sent (ipc s') (length (heap s')) j) (workers s' ! j)" if "j < n" for j
      using q [OF that] w_call_err len that queue_ok_return [of _ "workers s ! i" p dl]
      by (cases "j = i") simp_all
    with w_call_err assms(1) show ?thesis by (simp add: inv_queue_def)
  next
    case (w_marshal_err i p dl e)
    have "queue_ok (sent (ipc s') (length (heap s')) j) (workers s' ! j)" if "j < n" for j
      using q [OF that] w_marshal_err len that queue_ok_return [of _ "workers s ! i" p dl]
      by (cases "j = i") simp_all
    with w_marshal_err assms(1) show ?thesis by (simp add: inv_queue_def)
  next
    case (w_success i p dl resStr)
    have "queue_ok (sent (ipc s') (length (heap s')) j) (workers s' ! j)" if "j < n" for j
      using q [OF that] w_success len that queue_ok_return [of _ "workers s ! i" p dl]
      by (cases "j = i") simp_all
    with w_success assms(1) show ?thesis by (simp add: inv_queue_def)
  qed (use assms(1) in \<open>simp_all add: inv_queue_def\<close>)
qed

subsection \<open>All invariants together\<close>

lemma invar_init: "invar D evs n (init evs cl n)"
  by (simp add: invar_def inv_chans_init inv_err_init inv_grp_init inv_src_init inv_queue_init)

lemma invar_step:
  assumes "invar D evs n s" and "step D act s = Some s'"
  shows "invar D evs n s'"
proof -
  from assms(1) have a: "inv_chans n s" "inv_err s" "inv_grp s" "inv_src D evs s" "inv_queue n s"
    by (simp_all add: invar_def)
  note st = assms(2)
  show ?thesis
    unfolding invar_def
    using inv_chans_step [OF a(1) st] inv_err_step [OF a(2) st] inv_grp_step [OF a(3) st]
      inv_src_step [OF a(4) st] inv_queue_step [OF a(5) a(1) st]
    by simp
qed

lemma invar_run_from:
  assumes "run D acts s = Some s'" and "invar D evs n s"
  shows "invar D evs n s'"
  using assms(1,2) by (rule run_invariant) (rule invar_step)

lemma invar_run:
  assumes "run D acts (init evs cl n) = Some s"
  shows "invar D evs n s"
  using assms invar_init by (rule invar_run_from)

text \<open>What the invariants say of the calls of one agent.\<close>

lemma queue_ok_calls:
  assumes "queue_ok m w"
  shows "calls w = [0..<length (calls w)]" and "length (calls w) \<le> m"
proof -
  from assms obtain g where g: "calls w @ g @ buf (input w) = [0..<m]"
    by (auto simp: queue_ok_def)
  then have "take (length (calls w)) [0..<m] = calls w"
    by (metis append_eq_conv_conj)
  moreover from g have l: "length (calls w) \<le> m"
    by (metis diff_zero le_add1 length_append length_upt)
  ultimately show "calls w = [0..<length (calls w)]"
    by (simp add: take_upt)
  from l show "length (calls w) \<le> m" .
qed

lemma sent_le: "sent pc h i \<le> h"
  by (cases pc) auto

lemma invar_calls:
  assumes "invar D evs n s" and "i < n"
  shows "calls (workers s ! i) = [0..<length (calls (workers s ! i))]"
    and "length (calls (workers s ! i)) \<le> length (heap s)"
proof -
  from assms have q: "queue_ok (sent (ipc s) (length (heap s)) i) (workers s ! i)"
    by (simp add: invar_def inv_queue_def)
  from queue_ok_calls(1) [OF q] show "calls (workers s ! i) = [0..<length (calls (workers s ! i))]" .
  from queue_ok_calls(2) [OF q] sent_le [of "ipc s" "length (heap s)" i]
  show "length (calls (workers s ! i)) \<le> length (heap s)" by simp
qed

lemma invar_heap_prefix:
  assumes "invar D evs n s"
  shows "prefix (map Event (heap s)) (translated D evs)"
    and "prefix (conv_errors (logs s)) (failed D evs)"
proof -
  from assms obtain dn rest where
    inv: "evs = dn @ rest" "translated D dn = map Event (heap s) @ ip_msgs (ipc s)"
      "failed D dn = conv_errors (logs s)"
    unfolding invar_def inv_src_def by blast
  from inv(1,2) show "prefix (map Event (heap s)) (translated D evs)"
    by (simp add: translated_append)
  from inv(1,3) show "prefix (conv_errors (logs s)) (failed D evs)"
    by (simp add: failed_append)
qed

lemma map_nth_upt_prefix:
  assumes "c \<le> length xs"
  shows "map (\<lambda>p. xs ! p) [0..<c] = take c xs"
  using assms by (simp add: list_eq_iff_nth_eq)

subsection \<open>Without a cancellation from outside, no error\<close>

lemma no_cancel_step:
  assumes "inv_err s" and "ctx_err s = None" and "step D act s = Some s'"
    and "act \<noteq> Cancel" and "act \<noteq> Expire"
  shows "ctx_err s' = None"
proof -
  note np = step_not_panicked [OF assms(3)]
  show ?thesis
  proof (cases act)
    case (Ingest u)
    with assms(3) np have "ingest_step D u s = Some s'" by (simp add: step_def)
    then show ?thesis
    proof (cases rule: ingest_step_cases)
      case (close_end k r)
      with assms(1,2) have "r = None" by (auto simp: inv_err_def)
      with close_end assms(2) show ?thesis by simp
    qed (use assms(2) in simp_all)
  next
    case (Work i a)
    with assms(3) np have "worker_step D i a s = Some s'" by (simp add: step_def)
    then show ?thesis
      by (cases rule: worker_step_cases) (use assms(2) in simp_all)
  next
    case (Tick d)
    with assms(2,3) np show ?thesis by (auto simp: step_def)
  qed (use assms in simp_all)
qed



section \<open>Termination and progress\<close>


lemma sum_list_update_less:
  fixes f :: "'a \<Rightarrow> nat"
  assumes "i < length ws" and "f w < f (ws ! i)"
  shows "sum_list (map f (ws[i := w])) < sum_list (map f ws)"
  using assms
proof (induction ws arbitrary: i)
  case Nil
  then show ?case by simp
next
  case (Cons x ws)
  then show ?case by (cases i) auto
qed

lemma sum_list_update_same:
  fixes f :: "'a \<Rightarrow> nat"
  assumes "i < length ws" and "f w = f (ws ! i)"
  shows "sum_list (map f (ws[i := w])) = sum_list (map f ws)"
  using assms
proof (induction ws arbitrary: i)
  case Nil
  then show ?case by simp
next
  case (Cons x ws)
  then show ?case by (cases i) auto
qed

lemma sum_list_update_add:
  fixes f :: "'a \<Rightarrow> nat"
  assumes "i < length ws" and "f w = f (ws ! i) + d"
  shows "sum_list (map f (ws[i := w])) = sum_list (map f ws) + d"
  using assms
proof (induction ws arbitrary: i)
  case Nil
  then show ?case by simp
next
  case (Cons x ws)
  then show ?case by (cases i) auto
qed

lemma fuel_set_worker_less:
  assumes "i < length (workers s)" and "worker_fuel w < worker_fuel (workers s ! i)"
    and "panicked s = None"
  shows "fuel n (set_worker i w s) < fuel n s"
  using sum_list_update_less [OF assms(1,2)] assms(3) by (simp add: fuel_def)

text \<open>Every step of a goroutine uses fuel, and the environment gives none back: a run has
  at most \<open>fuel n s\<close> steps of goroutines, cancelled or not.\<close>

lemma fuel_step:
  assumes "inv_chans n s" and "step D act s = Some s'"
  shows "if is_task act then fuel n s' < fuel n s else fuel n s' = fuel n s"
proof -
  note np = step_not_panicked [OF assms(2)]
  from assms(1) have len: "length (workers s) = n" by (simp add: inv_chans_def)
  show ?thesis
  proof (cases act)
    case (Ingest u)
    with assms(2) np have "ingest_step D u s = Some s'" by (simp add: step_def)
    then show ?thesis
    proof (cases rule: ingest_step_cases)
      case (send p k)
      have "sum_list (map worker_fuel ((workers s)[k := (workers s ! k)
          \<lparr>input := (input (workers s ! k))\<lparr>buf := buf (input (workers s ! k)) @ [p]\<rparr>\<rparr>])) =
        sum_list (map worker_fuel (workers s)) + 4"
        using send(2) by (intro sum_list_update_add) (simp_all add: worker_fuel_def)
      with send np Ingest len show ?thesis
        by (simp add: fuel_def)
    next
      case (close k r)
      with np Ingest len show ?thesis
        using sum_list_update_same [of k "workers s" worker_fuel
            "(workers s ! k)\<lparr>input := (input (workers s ! k))\<lparr>closed := True\<rparr>\<rparr>"]
        by (auto simp: fuel_def worker_fuel_def)
    next
      case (close_end k r)
      with assms(1) np Ingest len show ?thesis
        by (auto simp: fuel_def inv_chans_def)
    next
      case (close_panic k r)
      with assms(1) show ?thesis by (auto simp: inv_chans_def)
    next
      case (send_panic p k)
      with assms(1) show ?thesis by (auto simp: inv_chans_def)
    qed (use np Ingest in \<open>auto simp: fuel_def\<close>)
  next
    case (Work i a)
    with assms(2) np have "worker_step D i a s = Some s'" by (simp add: step_def)
    then show ?thesis
    proof (cases rule: worker_step_cases)
      case (recv p rest)
      with np Work show ?thesis
        using fuel_set_worker_less [of i s _ n]
        by (simp add: worker_fuel_def)
    next
      case eof
      with np Work show ?thesis
        using fuel_set_worker_less [of i s _ n]
        by (simp add: worker_fuel_def fuel_def)
    next
      case (check_err p e)
      with np Work show ?thesis
        using fuel_set_worker_less [of i s _ n]
        by (simp add: worker_fuel_def fuel_def)
    next
      case (check_ok p)
      with np Work show ?thesis
        using fuel_set_worker_less [of i s _ n]
        by (simp add: worker_fuel_def)
    next
      case (invoke p)
      with np Work show ?thesis
        using fuel_set_worker_less [of i s _ n]
        by (simp add: worker_fuel_def)
    next
      case (call_err p dl e)
      with np Work show ?thesis
        using fuel_set_worker_less [of i s _ n]
        by (simp add: worker_fuel_def fuel_def)
    next
      case (marshal_err p dl resp e)
      with np Work show ?thesis
        using fuel_set_worker_less [of i s _ n]
        by (simp add: worker_fuel_def fuel_def)
    next
      case (success p dl resp resStr)
      with np Work show ?thesis
        using fuel_set_worker_less [of i s _ n]
        by (simp add: worker_fuel_def fuel_def)
    qed
  next
    case Cancel
    with assms(2) np show ?thesis by (auto simp: step_def fuel_def)
  next
    case Expire
    with assms(2) np show ?thesis by (auto simp: step_def fuel_def)
  next
    case (Tick d)
    with assms(2) np show ?thesis by (auto simp: step_def fuel_def)
  qed
qed

lemma drain_step:
  assumes "inv_chans n s" and "draining s" and "step D act s = Some s'"
  shows "draining s' \<and> panicked s' = None \<and>
    (if is_task act then fuel n s' < fuel n s else fuel n s' = fuel n s)"
proof -
  have "draining s' \<and> panicked s' = None"
    using assms(3)
  proof (cases rule: step_cases)
    case (i_close_panic k r)
    with assms(1) show ?thesis by (auto simp: inv_chans_def)
  qed (use assms(2) step_not_panicked [OF assms(3)] in \<open>auto simp: draining_def\<close>)
  with fuel_step [OF assms(1,3)] show ?thesis by simp
qed

lemma drain_progress:
  assumes "inv_chans n s" and "draining s" and "panicked s = None" and "\<not> all_done s"
  shows "\<exists>act. is_task act \<and> step D act s \<noteq> None"
proof (cases "ingest_done (ipc s)")
  case False
  from assms(1) have c: "\<And>k. k < n \<Longrightarrow> closed (input (workers s ! k)) \<longleftrightarrow> k < closed_upto n (ipc s)"
    and len: "length (workers s) = n"
    by (simp_all add: inv_chans_def)
  from False assms(2) have "ingest_step D (Inl Canceled) s \<noteq> None"
  proof (cases "ipc s")
    case (I_Close k r)
    with c [of k] len show ?thesis
      by (simp add: ingest_step_def Let_def)
  qed (simp_all add: ingest_step_def draining_def)
  with assms(3) have "step D (Ingest (Inl Canceled)) s \<noteq> None"
    by (simp add: step_def)
  then show ?thesis using is_task.simps(1) by blast
next
  case True
  then obtain r where r: "ipc s = I_Done r"
    by (cases "ipc s") simp_all
  from assms(1) r have cl: "\<And>k. k < n \<Longrightarrow> closed (input (workers s ! k))"
    and len: "length (workers s) = n"
    by (simp_all add: inv_chans_def)
  from True assms(4) obtain i where i: "i < n" "\<not> is_done (wpc (workers s ! i))"
    using len by (auto simp: all_done_def list_all_length)
  from i cl [OF i(1)] len have "worker_step D i (Inl Canceled) s \<noteq> None"
    by (cases "wpc (workers s ! i)"; cases "buf (input (workers s ! i))")
      (simp_all add: worker_step_def Let_def split: option.splits)
  with assms(3) have "step D (Work i (Inl Canceled)) s \<noteq> None"
    by (simp add: step_def)
  then show ?thesis using is_task.simps(2) by blast
qed

lemma drain_run:
  assumes "run D acts s = Some s'" and "inv_chans n s" and "draining s"
  shows "draining s' \<and> inv_chans n s' \<and> length (filter is_task acts) + fuel n s' \<le> fuel n s"
  using assms
proof (induction acts arbitrary: s)
  case Nil
  then show ?case by simp
next
  case (Cons act acts)
  from Cons.prems(1) obtain t where t: "step D act s = Some t" "run D acts t = Some s'"
    by (auto split: option.splits)
  from drain_step [OF Cons.prems(2,3) t(1)]
  have d: "draining t" and f: "if is_task act then fuel n t < fuel n s else fuel n t = fuel n s"
    by simp_all
  from inv_chans_step [OF Cons.prems(2) t(1)] have i: "inv_chans n t" .
  from Cons.IH [OF t(2) i d] f show ?case
    by (auto split: if_splits)
qed

lemma drain_terminates:
  assumes "inv_chans n s" and "draining s" and "panicked s = None"
  shows "\<exists>acts s'. run D acts s = Some s' \<and> all_done s'"
  using assms
proof (induction "fuel n s" arbitrary: s rule: less_induct)
  case less
  show ?case
  proof (cases "all_done s")
    case True
    then have "run D [] s = Some s \<and> all_done s" by simp
    then show ?thesis by blast
  next
    case False
    from drain_progress [OF less.prems False]
    obtain act t where a: "is_task act" "step D act s = Some t"
      by (metis not_None_eq)
    from drain_step [OF less.prems(1,2) a(2)] a(1)
    have t: "draining t" "panicked t = None" "fuel n t < fuel n s"
      by simp_all
    from less.hyps [OF t(3) inv_chans_step [OF less.prems(1) a(2)] t(1,2)]
    obtain acts s' where "run D acts t = Some s'" "all_done s'" by blast
    with a(2) have "run D (act # acts) s = Some s' \<and> all_done s'" by simp
    then show ?thesis by blast
  qed
qed

lemma some_failed_update_rev:
  assumes "some_failed (ws[i := w])" and "wpc_ret (wpc w) = None"
  shows "some_failed ws"
proof -
  from assms(1) obtain j e where j: "j < length ws" "wpc ((ws[i := w]) ! j) = W_Done (Some e)"
    by (auto simp: some_failed_def)
  with assms(2) have "j \<noteq> i" by (cases "j = i") auto
  with j show ?thesis by (auto simp: some_failed_def)
qed

lemma some_failed_input_rev:
  assumes "some_failed (ws[i := (ws ! i)\<lparr>input := c\<rparr>])"
  shows "some_failed ws"
proof -
  from assms(1) obtain j e where
    j: "j < length ws" "wpc ((ws[i := (ws ! i)\<lparr>input := c\<rparr>]) ! j) = W_Done (Some e)"
    by (auto simp: some_failed_def)
  then have "wpc (ws ! j) = W_Done (Some e)"
    by (cases "j = i") simp_all
  with j(1) show ?thesis by (auto simp: some_failed_def)
qed

lemma inv_rec_step:
  assumes "inv_rec s" and "step D act s = Some s'"
  shows "inv_rec s'"
  using assms(2)
proof (cases rule: step_cases)
  case (i_send p k)
  with assms(1) show ?thesis
    by (auto simp: inv_rec_def dest: some_failed_input_rev)
next
  case (i_close k r)
  with assms(1) show ?thesis
    by (auto simp: inv_rec_def dest: some_failed_input_rev)
next
  case (i_close_end k r)
  with assms(1) show ?thesis
    by (auto simp: inv_rec_def split: option.splits)
next
  case (w_recv i p rest)
  with assms(1) show ?thesis
    by (auto simp: inv_rec_def dest: some_failed_update_rev)
next
  case (w_eof i)
  with assms(1) show ?thesis
    by (auto simp: inv_rec_def dest: some_failed_update_rev)
next
  case (w_check_err i p e)
  then show ?thesis
    by (auto simp: inv_rec_def split: option.splits)
next
  case (w_check_ok i p)
  with assms(1) show ?thesis
    by (auto simp: inv_rec_def dest: some_failed_update_rev)
next
  case (w_invoke i p)
  with assms(1) show ?thesis
    by (auto simp: inv_rec_def dest: some_failed_update_rev)
next
  case (w_call_err i p dl e)
  with assms(1) show ?thesis
    by (auto simp: inv_rec_def dest: some_failed_update_rev)
next
  case (w_marshal_err i p dl e)
  with assms(1) show ?thesis
    by (auto simp: inv_rec_def dest: some_failed_update_rev)
next
  case (w_success i p dl resStr)
  with assms(1) show ?thesis
    by (auto simp: inv_rec_def dest: some_failed_update_rev)
qed (use assms(1) in \<open>auto simp: inv_rec_def\<close>)

lemma inv_rec_run:
  assumes "run D acts (init evs cl n) = Some s"
  shows "inv_rec s"
  using assms
proof (rule run_invariant)
  show "inv_rec (init evs cl n)"
    by (simp add: inv_rec_def init_def new_worker_def some_failed_def)
qed (rule inv_rec_step)

lemma closes_run:
  assumes "run D acts s = Some s'" and "inv_chans n s" and "i < n"
  shows "closes D i acts s =
    (if \<not> closed (input (workers s ! i)) \<and> closed (input (workers s' ! i)) then 1 else 0) \<and>
    (closed (input (workers s ! i)) \<longrightarrow> closed (input (workers s' ! i)))"
  using assms(1,2)
proof (induction acts arbitrary: s)
  case Nil
  then show ?case by simp
next
  case (Cons act acts)
  from Cons.prems(1) obtain t where t: "step D act s = Some t" "run D acts t = Some s'"
    by (auto split: option.splits)
  note it = inv_chans_step [OF Cons.prems(2) t(1)]
  have mono: "closed (input (workers s ! i)) \<longrightarrow> closed (input (workers t ! i))"
    using t(1) Cons.prems(2) assms(3)
    by (cases rule: step_cases) (auto simp: inv_chans_def nth_list_update)
  from Cons.IH [OF t(2) it] mono t(1) show ?case
    by auto
qed

lemma fuel_run:
  assumes "run D acts s = Some s'" and "inv_chans n s"
  shows "length (filter is_task acts) + fuel n s' \<le> fuel n s"
  using assms
proof (induction acts arbitrary: s)
  case Nil
  then show ?case by simp
next
  case (Cons act acts)
  from Cons.prems(1) obtain t where t: "step D act s = Some t" "run D acts t = Some s'"
    by (auto split: option.splits)
  from Cons.IH [OF t(2) inv_chans_step [OF Cons.prems(2) t(1)]] fuel_step [OF Cons.prems(2) t(1)]
  show ?case by (auto split: if_splits)
qed

subsection \<open>Without cancellation, no goroutine waits forever\<close>

lemma src_closed_run:
  assumes "run D acts s = Some s'"
  shows "src_closed s' = src_closed s"
  using assms
proof (rule run_invariant)
  fix act t t'
  assume "src_closed t = src_closed s" and "step D act t = Some t'"
  from this(2) this(1) show "src_closed t' = src_closed s"
    by (cases rule: step_cases) simp_all
qed simp

lemma worker_can_step:
  assumes "i < length (workers s)" and "panicked s = None"
    and "wpc (workers s ! i) = W_Recv \<longrightarrow>
      buf (input (workers s ! i)) \<noteq> [] \<or> closed (input (workers s ! i))"
    and "\<not> is_done (wpc (workers s ! i))"
  shows "\<exists>s'. step D (Work i (Inl Canceled)) s = Some s' \<and> panicked s' = None"
  using assms
  by (cases "wpc (workers s ! i)"; cases "buf (input (workers s ! i))"; cases "ctx_err s")
    (simp_all add: step_def worker_step_def Let_def)

lemma live_progress:
  assumes "invar D evs n s" and "src_closed s" and "ctx_err s = None" and "panicked s = None"
    and "\<not> all_done s"
  shows "\<exists>act s'. is_task act \<and> step D act s = Some s' \<and> panicked s' = None"
proof -
  from assms(1) have ic: "inv_chans n s" and ie: "inv_err s" and iq: "inv_queue n s"
    by (simp_all add: invar_def)
  from ic have len: "length (workers s) = n"
    and c: "\<And>k. k < n \<Longrightarrow> closed (input (workers s ! k)) \<longleftrightarrow> k < closed_upto n (ipc s)"
    by (simp_all add: inv_chans_def)
  have ing: "\<exists>act s'. is_task act \<and> step D act s = Some s' \<and> panicked s' = None"
    if "ingest_step D (Inr ''id'') s \<noteq> None"
  proof -
    from that obtain s' where s': "ingest_step D (Inr ''id'') s = Some s'" by blast
    then have "panicked s' = None"
    proof (cases rule: ingest_step_cases)
      case (send_panic p k)
      with ic show ?thesis by (auto simp: inv_chans_def)
    next
      case (close_panic k r)
      with ic show ?thesis by (auto simp: inv_chans_def)
    qed (use assms(4) in simp_all)
    with s' assms(4) have "is_task (Ingest (Inr ''id'') :: 'c action) \<and>
      step D (Ingest (Inr ''id'')) s = Some s' \<and> panicked s' = None"
      by (simp add: step_def)
    then show ?thesis by blast
  qed
  have wrk: "\<exists>act s'. is_task act \<and> step D act s = Some s' \<and> panicked s' = None"
    if "i < n" "\<not> is_done (wpc (workers s ! i))"
      "wpc (workers s ! i) = W_Recv \<longrightarrow>
        buf (input (workers s ! i)) \<noteq> [] \<or> closed (input (workers s ! i))" for i
  proof -
    from worker_can_step [of i s D] that len assms(4)
    obtain s' where "step D (Work i (Inl Canceled)) s = Some s' \<and> panicked s' = None"
      by auto
    then have "is_task (Work i (Inl Canceled) :: 'c action) \<and>
      step D (Work i (Inl Canceled)) s = Some s' \<and> panicked s' = None"
      by simp
    then show ?thesis by blast
  qed
  show ?thesis
  proof (cases "ipc s")
    case I_Recv
    with assms(2) show ?thesis
      by (intro ing) (simp add: ingest_step_def split: list.splits)
  next
    case (I_Check tx)
    with assms(3) show ?thesis
      by (intro ing) (simp add: ingest_step_def)
  next
    case (I_Convert tx)
    then show ?thesis
      by (intro ing) (simp add: ingest_step_def split: sum.splits)
  next
    case (I_Tag msg)
    then show ?thesis
      by (intro ing) (simp add: ingest_step_def)
  next
    case (I_Send p k)
    show ?thesis
    proof (cases "k < n \<and> \<not> length (buf (input (workers s ! k))) < chan_cap")
      case False
      with I_Send len show ?thesis
        by (intro ing) (auto simp: ingest_step_def Let_def)
    next
      case True
      then have k: "k < n" and full: "buf (input (workers s ! k)) \<noteq> []"
        by (auto simp: chan_cap_def)
      from iq k have q: "queue_ok (sent (ipc s) (length (heap s)) k) (workers s ! k)"
        unfolding inv_queue_def by blast
      have nd: "\<not> is_done (wpc (workers s ! k))"
      proof
        assume "is_done (wpc (workers s ! k))"
        then obtain r where r: "wpc (workers s ! k) = W_Done r"
          by (cases "wpc (workers s ! k)") simp_all
        with ie assms(3) k len have "r = None" by (fastforce simp: inv_err_def)
        with r q full show False by (auto simp: queue_ok_def)
      qed
      from wrk [OF k nd] full show ?thesis by simp
    qed
  next
    case (I_Close k r)
    with len show ?thesis
      by (intro ing) (auto simp: ingest_step_def Let_def)
  next
    case (I_Done r)
    with c len have cl: "\<And>k. k < n \<Longrightarrow> closed (input (workers s ! k))" by simp
    from I_Done assms(5) len obtain i where i: "i < n" "\<not> is_done (wpc (workers s ! i))"
      by (auto simp: all_done_def list_all_length)
    from wrk [OF i] cl [OF i(1)] show ?thesis by simp
  qed
qed

lemma live_terminates:
  assumes "invar D evs n s" and "src_closed s" and "ctx_err s = None" and "panicked s = None"
  shows "\<exists>acts s'. run D acts s = Some s' \<and> all_done s' \<and> ctx_err s' = None"
  using assms
proof (induction "fuel n s" arbitrary: s rule: less_induct)
  case less
  show ?case
  proof (cases "all_done s")
    case True
    with less.prems(3) have "run D [] s = Some s \<and> all_done s \<and> ctx_err s = None" by simp
    then show ?thesis by blast
  next
    case False
    from live_progress [OF less.prems False]
    obtain act t where a: "is_task act" "step D act s = Some t" "panicked t = None"
      by blast
    from less.prems(1) have ic: "inv_chans n s" and ie: "inv_err s"
      by (simp_all add: invar_def)
    from fuel_step [OF ic a(2)] a(1) have f: "fuel n t < fuel n s" by simp
    from a(1) have "act \<noteq> Cancel" "act \<noteq> Expire" by auto
    from no_cancel_step [OF ie less.prems(3) a(2) this] have ct: "ctx_err t = None" .
    from a(2) less.prems(2) have sc: "src_closed t"
      by (cases rule: step_cases) simp_all
    from less.hyps [OF f invar_step [OF less.prems(1) a(2)] sc ct a(3)]
    obtain acts s' where "run D acts t = Some s'" "all_done s'" "ctx_err s' = None" by blast
    with a(2) have "run D (act # acts) s = Some s' \<and> all_done s' \<and> ctx_err s' = None" by simp
    then show ?thesis by blast
  qed
qed

section \<open>The claims\<close>

lemmas run_eval = step_def ingest_step_def worker_step_def init_def new_worker_def ex_deps_def
  set_input_def set_worker_def log_line_def task_return_def cancel_with_def chan_cap_def
  call_timeout_def call_ctx_done_def Let_def

text \<open>C8. For every agent, the requests its \<^verbatim>\<open>Evaluate\<close> is called with are, in the order of
  the calls, an initial segment of the requests allocated, and the requests allocated carry,
  in the order of their allocation, the payloads of the events of the source that
  \<^verbatim>\<open>ToMessage\<close> converts, in the order of the source: an agent is called in the order in
  which the events were produced. This holds in every state of every run.\<close>

theorem evaluate_calls_fifo:
  assumes "run D acts (init evs cl n) = Some s" and "i < n"
  shows "prefix (map (\<lambda>p. heap s ! p) (calls (workers s ! i))) (heap s) \<and>
    prefix (map Event (heap s)) (translated D evs) \<and>
    prefix (map (\<lambda>p. Event (heap s ! p)) (calls (workers s ! i))) (translated D evs)"
proof -
  note inv = invar_run [OF assms(1)]
  let ?c = "calls (workers s ! i)"
  from invar_calls [OF inv assms(2)]
  have c: "?c = [0..<length ?c]" and l: "length ?c \<le> length (heap s)" by simp_all
  have "map (\<lambda>p. heap s ! p) [0..<length ?c] = take (length ?c) (heap s)"
    using l by (rule map_nth_upt_prefix)
  with c have "map (\<lambda>p. heap s ! p) ?c = take (length ?c) (heap s)" by simp
  then have 1: "prefix (map (\<lambda>p. heap s ! p) ?c) (heap s)"
    by (simp add: take_is_prefix)
  from invar_heap_prefix(1) [OF inv] have 2: "prefix (map Event (heap s)) (translated D evs)" .
  from 1 have "prefix (map Event (map (\<lambda>p. heap s ! p) ?c)) (map Event (heap s))"
    by (rule map_mono_prefix)
  with 2 have "prefix (map Event (map (\<lambda>p. heap s ! p) ?c)) (translated D evs)"
    by (rule prefix_order.trans [rotated])
  then have 3: "prefix (map (\<lambda>p. Event (heap s ! p)) ?c) (translated D evs)"
    by (simp add: comp_def)
  from 1 2 3 show ?thesis by simp
qed

theorem evaluate_calls_fifo_witness:
  "(case run ex_deps
      [Ingest (Inr ''a''), Ingest (Inr ''a''), Ingest (Inr ''a''), Ingest (Inr ''a''),
       Ingest (Inr ''a''), Ingest (Inr ''a''), Ingest (Inr ''a''), Ingest (Inr ''a''),
       Work 0 (Inr 1), Work 0 (Inr 1),
       Work 0 (Inr 1)]
      (init [0, 1] True (Suc 0)) of
      None \<Rightarrow> False
    | Some s \<Rightarrow>
        calls (workers s ! 0) = [0] \<and> map Event (heap s) = [1] \<and>
        prefix (map (\<lambda>p. Event (heap s ! p)) (calls (workers s ! 0))) (translated ex_deps [0, 1]))"
proof -
  have r: "run ex_deps
      [Ingest (Inr ''a''), Ingest (Inr ''a''), Ingest (Inr ''a''), Ingest (Inr ''a''),
       Ingest (Inr ''a''), Ingest (Inr ''a''), Ingest (Inr ''a''), Ingest (Inr ''a''),
       Work 0 (Inr 1), Work 0 (Inr 1),
       Work 0 (Inr 1)]
      (init [0, 1] True (Suc 0)) =
    Some \<lparr>txs = [], src_closed = True, ipc = I_Send 0 (Suc 0),
      workers = [\<lparr>input = \<lparr>buf = [], closed = False\<rparr>, wpc = W_Call 0 5000000000, calls = [0]\<rparr>],
      heap = [\<lparr>RequestId = ''a'', Event = 1\<rparr>], ctx_err = None, grp_err = None,
      logs = [LogInfo ''Starting TxAnalyzerService'',
              LogError ''error converting tx event to message'' (Failure ''malformed'')],
      panicked = None, now = 0\<rparr>"
    by (simp add: run_eval)
  from evaluate_calls_fifo [OF r, of 0] show ?thesis
    unfolding r by (simp add: ex_deps_def)
qed

subsection \<open>The requests are never written after their allocation\<close>

lemma heap_step:
  assumes "step D act s = Some s'"
  shows "prefix (heap s) (heap s')"
  using assms by (cases rule: step_cases) simp_all

lemma heap_run:
  assumes "run D acts s = Some s'"
  shows "prefix (heap s) (heap s')"
  using assms
proof (induction acts arbitrary: s)
  case Nil
  then show ?case by simp
next
  case (Cons act acts)
  then obtain t where t: "step D act s = Some t" "run D acts t = Some s'"
    by (auto split: option.splits)
  from heap_step [OF t(1)] Cons.IH [OF t(2)] show ?case
    by (rule prefix_order.trans)
qed

text \<open>C2, as the code has it. The loop of lines 93-95 sends the one pointer \<^verbatim>\<open>request\<close> on
  every channel: no copy is made. The requests are never written after their allocation
  (whatever a run does from a state, the requests of that state are still there, unchanged),
  and the pointers that have gone through the channel of an agent (those its \<^verbatim>\<open>Evaluate\<close>
  was called with, the one its goroutine holds, those still queued) are \<open>0, 1, 2, ...\<close> in
  this order, pointers to requests that are allocated: the same objects for every agent.\<close>

theorem requests_shared_and_immutable:
  assumes "run D acts (init evs cl n) = Some s" and "run D acts' s = Some s'" and "i < n"
  shows "prefix (heap s) (heap s') \<and>
    (\<exists>g. calls (workers s ! i) @ g @ buf (input (workers s ! i)) =
       [0..<sent (ipc s) (length (heap s)) i] \<and> length g \<le> 1) \<and>
    sent (ipc s) (length (heap s)) i \<le> length (heap s)"
proof -
  from invar_run [OF assms(1)] assms(3)
  have "queue_ok (sent (ipc s) (length (heap s)) i) (workers s ! i)"
    by (simp add: invar_def inv_queue_def)
  then obtain g where g: "calls (workers s ! i) @ g @ buf (input (workers s ! i)) =
       [0..<sent (ipc s) (length (heap s)) i]" "gap_ok (wpc (workers s ! i)) g (input (workers s ! i))"
    by (auto simp: queue_ok_def)
  from g(2) have "length g \<le> 1"
    by (cases "wpc (workers s ! i)") simp_all
  with g(1) heap_run [OF assms(2)] sent_le [of "ipc s" "length (heap s)" i] show ?thesis
    by blast
qed

theorem requests_shared_and_immutable_witness:
  "(case run ex_deps
      [Ingest (Inr ''a''), Ingest (Inr ''a''), Ingest (Inr ''a''), Ingest (Inr ''a''),
       Ingest (Inr ''a''), Ingest (Inr ''a'')]
      (init [1] True 2) of
      None \<Rightarrow> False
    | Some s \<Rightarrow>
        run ex_deps [Work 0 (Inr 1)] s \<noteq> None \<and>
        prefix (heap s) (heap (the (run ex_deps [Work 0 (Inr 1)] s))) \<and>
        sent (ipc s) (length (heap s)) 1 \<le> length (heap s))"
proof -
  have r: "run ex_deps
      [Ingest (Inr ''a''), Ingest (Inr ''a''), Ingest (Inr ''a''), Ingest (Inr ''a''),
       Ingest (Inr ''a''), Ingest (Inr ''a'')]
      (init [1] True 2) =
    Some \<lparr>txs = [], src_closed = True, ipc = I_Send 0 2,
      workers = [\<lparr>input = \<lparr>buf = [0], closed = False\<rparr>, wpc = W_Recv, calls = []\<rparr>,
                 \<lparr>input = \<lparr>buf = [0], closed = False\<rparr>, wpc = W_Recv, calls = []\<rparr>],
      heap = [\<lparr>RequestId = ''a'', Event = 1\<rparr>], ctx_err = None, grp_err = None,
      logs = [LogInfo ''Starting TxAnalyzerService''], panicked = None, now = 0\<rparr>"
    by (simp add: run_eval eval_nat_numeral)
  have r': "run ex_deps [Work 0 (Inr 1)]
      \<lparr>txs = [], src_closed = True, ipc = I_Send 0 2,
      workers = [\<lparr>input = \<lparr>buf = [0], closed = False\<rparr>, wpc = W_Recv, calls = []\<rparr>,
                 \<lparr>input = \<lparr>buf = [0], closed = False\<rparr>, wpc = W_Recv, calls = []\<rparr>],
      heap = [\<lparr>RequestId = ''a'', Event = 1\<rparr>], ctx_err = None, grp_err = None,
      logs = [LogInfo ''Starting TxAnalyzerService''], panicked = None, now = 0\<rparr> =
    Some \<lparr>txs = [], src_closed = True, ipc = I_Send 0 2,
      workers = [\<lparr>input = \<lparr>buf = [], closed = False\<rparr>, wpc = W_Check 0, calls = []\<rparr>,
                 \<lparr>input = \<lparr>buf = [0], closed = False\<rparr>, wpc = W_Recv, calls = []\<rparr>],
      heap = [\<lparr>RequestId = ''a'', Event = 1\<rparr>], ctx_err = None, grp_err = None,
      logs = [LogInfo ''Starting TxAnalyzerService''], panicked = None, now = 0\<rparr>"
    by (simp add: run_eval)
  from requests_shared_and_immutable [OF r r', of 1] show ?thesis
    unfolding r option.case r' by simp
qed

theorem requests_shared_counterexample:
  "run ex_deps
      [Ingest (Inr ''a''), Ingest (Inr ''a''), Ingest (Inr ''a''), Ingest (Inr ''a''),
       Ingest (Inr ''a''), Ingest (Inr ''a'')]
      (init [1] True 2) =
    Some \<lparr>txs = [], src_closed = True, ipc = I_Send 0 2,
      workers = [\<lparr>input = \<lparr>buf = [0], closed = False\<rparr>, wpc = W_Recv, calls = []\<rparr>,
                 \<lparr>input = \<lparr>buf = [0], closed = False\<rparr>, wpc = W_Recv, calls = []\<rparr>],
      heap = [\<lparr>RequestId = ''a'', Event = 1\<rparr>], ctx_err = None, grp_err = None,
      logs = [LogInfo ''Starting TxAnalyzerService''], panicked = None, now = 0\<rparr>"
  by (simp add: run_eval eval_nat_numeral)

text \<open>C6, as the code has it. With the context cancelled (\<^verbatim>\<open>ctx.Err()\<close> is \<open>c\<close>):
  \<^item> the ingestion loop at its check (line 77, once per event, right after receiving it)
    leaves the loop to close the channels and return \<open>c\<close>; the event is neither converted
    nor placed;
  \<^item> the goroutine of an agent at its check (line 34, once per request, right after taking it
    from the queue) returns \<open>c\<close>, which the group records if it is the first, without calling
    \<^verbatim>\<open>Evaluate\<close>;
  \<^item> a placement (line 94) is not guarded: an event that has passed the check is placed on
    every queue that has room;
  \<^item> a goroutine waiting on its empty open queue is not woken.\<close>

theorem cancellation_is_observed_at_the_checks:
  assumes "panicked s = None" and "ctx_err s = Some c"
  shows "(ipc s = I_Check tx \<longrightarrow> step D (Ingest u) s = Some (s\<lparr>ipc := I_Close 0 (Some c)\<rparr>)) \<and>
    (i < length (workers s) \<and> wpc (workers s ! i) = W_Check p \<longrightarrow>
       step D (Work i a) s =
         Some (s\<lparr>workers := (workers s)[i := (workers s ! i)\<lparr>wpc := W_Done (Some c)\<rparr>],
                 grp_err := (case grp_err s of None \<Rightarrow> Some c | Some e \<Rightarrow> Some e)\<rparr>)) \<and>
    (ipc s = I_Send p k \<and> k < length (workers s) \<and> \<not> closed (input (workers s ! k)) \<and>
       length (buf (input (workers s ! k))) < chan_cap \<longrightarrow>
       step D (Ingest u) s =
         Some (s\<lparr>workers := (workers s)[k := (workers s ! k)
                    \<lparr>input := (input (workers s ! k))\<lparr>buf := buf (input (workers s ! k)) @ [p]\<rparr>\<rparr>],
                 ipc := I_Send p (Suc k)\<rparr>)) \<and>
    (i < length (workers s) \<and> wpc (workers s ! i) = W_Recv \<and>
       buf (input (workers s ! i)) = [] \<and> \<not> closed (input (workers s ! i)) \<longrightarrow>
       step D (Work i a) s = None)"
  using assms
  by (auto simp: step_def ingest_step_def worker_step_def set_input_def set_worker_def
      task_return_def cancel_with_def Let_def split: option.splits)

theorem cancellation_is_observed_at_the_checks_witness:
  "step ex_deps (Ingest (Inr ''a''))
     \<lparr>txs = [], src_closed = True, ipc = I_Check 1,
      workers = [\<lparr>input = \<lparr>buf = [], closed = False\<rparr>, wpc = W_Check 0, calls = []\<rparr>,
                 \<lparr>input = \<lparr>buf = [], closed = False\<rparr>, wpc = W_Recv, calls = [0]\<rparr>],
      heap = [\<lparr>RequestId = ''a'', Event = 1\<rparr>],
      ctx_err = Some Canceled, grp_err = None, logs = [], panicked = None, now = 0\<rparr> =
   Some \<lparr>txs = [], src_closed = True, ipc = I_Close 0 (Some Canceled),
      workers = [\<lparr>input = \<lparr>buf = [], closed = False\<rparr>, wpc = W_Check 0, calls = []\<rparr>,
                 \<lparr>input = \<lparr>buf = [], closed = False\<rparr>, wpc = W_Recv, calls = [0]\<rparr>],
      heap = [\<lparr>RequestId = ''a'', Event = 1\<rparr>],
      ctx_err = Some Canceled, grp_err = None, logs = [], panicked = None, now = 0\<rparr> \<and>
   step ex_deps (Work 0 (Inr 1))
     \<lparr>txs = [], src_closed = True, ipc = I_Check 1,
      workers = [\<lparr>input = \<lparr>buf = [], closed = False\<rparr>, wpc = W_Check 0, calls = []\<rparr>,
                 \<lparr>input = \<lparr>buf = [], closed = False\<rparr>, wpc = W_Recv, calls = [0]\<rparr>],
      heap = [\<lparr>RequestId = ''a'', Event = 1\<rparr>],
      ctx_err = Some Canceled, grp_err = None, logs = [], panicked = None, now = 0\<rparr> =
   Some \<lparr>txs = [], src_closed = True, ipc = I_Check 1,
      workers = [\<lparr>input = \<lparr>buf = [], closed = False\<rparr>, wpc = W_Done (Some Canceled), calls = []\<rparr>,
                 \<lparr>input = \<lparr>buf = [], closed = False\<rparr>, wpc = W_Recv, calls = [0]\<rparr>],
      heap = [\<lparr>RequestId = ''a'', Event = 1\<rparr>],
      ctx_err = Some Canceled, grp_err = Some Canceled, logs = [], panicked = None, now = 0\<rparr> \<and>
   step ex_deps (Work (Suc 0) (Inr 1))
     \<lparr>txs = [], src_closed = True, ipc = I_Check 1,
      workers = [\<lparr>input = \<lparr>buf = [], closed = False\<rparr>, wpc = W_Check 0, calls = []\<rparr>,
                 \<lparr>input = \<lparr>buf = [], closed = False\<rparr>, wpc = W_Recv, calls = [0]\<rparr>],
      heap = [\<lparr>RequestId = ''a'', Event = 1\<rparr>],
      ctx_err = Some Canceled, grp_err = None, logs = [], panicked = None, now = 0\<rparr> = None \<and>
   step ex_deps (Ingest (Inr ''a''))
     \<lparr>txs = [], src_closed = True, ipc = I_Send 0 0,
      workers = [\<lparr>input = \<lparr>buf = [], closed = False\<rparr>, wpc = W_Recv, calls = []\<rparr>],
      heap = [\<lparr>RequestId = ''a'', Event = 1\<rparr>],
      ctx_err = Some Canceled, grp_err = None, logs = [], panicked = None, now = 0\<rparr> =
   Some \<lparr>txs = [], src_closed = True, ipc = I_Send 0 (Suc 0),
      workers = [\<lparr>input = \<lparr>buf = [0], closed = False\<rparr>, wpc = W_Recv, calls = []\<rparr>],
      heap = [\<lparr>RequestId = ''a'', Event = 1\<rparr>],
      ctx_err = Some Canceled, grp_err = None, logs = [], panicked = None, now = 0\<rparr>"
proof -
  define A :: "(nat, nat) state" where
    "A = \<lparr>txs = [], src_closed = True, ipc = I_Check 1,
      workers = [\<lparr>input = \<lparr>buf = [], closed = False\<rparr>, wpc = W_Check 0, calls = []\<rparr>,
                 \<lparr>input = \<lparr>buf = [], closed = False\<rparr>, wpc = W_Recv, calls = [0]\<rparr>],
      heap = [\<lparr>RequestId = ''a'', Event = 1\<rparr>],
      ctx_err = Some Canceled, grp_err = None, logs = [], panicked = None, now = 0\<rparr>"
  define B :: "(nat, nat) state" where
    "B = \<lparr>txs = [], src_closed = True, ipc = I_Send 0 0,
      workers = [\<lparr>input = \<lparr>buf = [], closed = False\<rparr>, wpc = W_Recv, calls = []\<rparr>],
      heap = [\<lparr>RequestId = ''a'', Event = 1\<rparr>],
      ctx_err = Some Canceled, grp_err = None, logs = [], panicked = None, now = 0\<rparr>"
  have a: "panicked A = None" "ctx_err A = Some Canceled"
    and b: "panicked B = None" "ctx_err B = Some Canceled"
    by (simp_all add: A_def B_def)
  from cancellation_is_observed_at_the_checks [OF a, of 1 ex_deps "Inr ''a''" 0 0 "Inr 1"]
  have 1: "step ex_deps (Ingest (Inr ''a'')) A = Some (A\<lparr>ipc := I_Close 0 (Some Canceled)\<rparr>)"
    and 2: "step ex_deps (Work 0 (Inr 1)) A =
      Some (A\<lparr>workers := (workers A)[0 := (workers A ! 0)\<lparr>wpc := W_Done (Some Canceled)\<rparr>],
              grp_err := (case grp_err A of None \<Rightarrow> Some Canceled | Some e \<Rightarrow> Some e)\<rparr>)"
    by (simp_all add: A_def)
  from cancellation_is_observed_at_the_checks [OF a, of 1 ex_deps "Inr ''a''" "Suc 0" 0 "Inr 1"]
  have 3: "step ex_deps (Work (Suc 0) (Inr 1)) A = None"
    by (simp add: A_def)
  from cancellation_is_observed_at_the_checks [OF b, of 1 ex_deps "Inr ''a''" 0 0 "Inr 1" 0]
  have 4: "step ex_deps (Ingest (Inr ''a'')) B =
      Some (B\<lparr>workers := (workers B)[0 := (workers B ! 0)
                \<lparr>input := (input (workers B ! 0))\<lparr>buf := buf (input (workers B ! 0)) @ [0]\<rparr>\<rparr>],
              ipc := I_Send 0 (Suc 0)\<rparr>)"
    by (simp add: B_def chan_cap_def)
  from 1 2 3 4 show ?thesis
    by (simp add: A_def B_def)
qed

theorem placement_after_cancellation_counterexample:
  "run ex_deps
     [Ingest (Inr ''a''), Ingest (Inr ''a''), Cancel, Ingest (Inr ''a''), Ingest (Inr ''a'')]
     (init [1] True 2) =
   Some \<lparr>txs = [], src_closed = True, ipc = I_Send 0 0,
      workers = [\<lparr>input = \<lparr>buf = [], closed = False\<rparr>, wpc = W_Recv, calls = []\<rparr>,
                 \<lparr>input = \<lparr>buf = [], closed = False\<rparr>, wpc = W_Recv, calls = []\<rparr>],
      heap = [\<lparr>RequestId = ''a'', Event = 1\<rparr>], ctx_err = Some Canceled, grp_err = None,
      logs = [LogInfo ''Starting TxAnalyzerService''], panicked = None, now = 0\<rparr> \<and>
   run ex_deps
     [Ingest (Inr ''a''), Ingest (Inr ''a''), Cancel, Ingest (Inr ''a''), Ingest (Inr ''a''),
      Ingest (Inr ''a''), Ingest (Inr ''a'')]
     (init [1] True 2) =
   Some \<lparr>txs = [], src_closed = True, ipc = I_Send 0 2,
      workers = [\<lparr>input = \<lparr>buf = [0], closed = False\<rparr>, wpc = W_Recv, calls = []\<rparr>,
                 \<lparr>input = \<lparr>buf = [0], closed = False\<rparr>, wpc = W_Recv, calls = []\<rparr>],
      heap = [\<lparr>RequestId = ''a'', Event = 1\<rparr>], ctx_err = Some Canceled, grp_err = None,
      logs = [LogInfo ''Starting TxAnalyzerService''], panicked = None, now = 0\<rparr>"
  by (simp add: run_eval eval_nat_numeral)

subsection \<open>The deadline of a call in flight\<close>



subsection \<open>A run that has ended without cancellation\<close>

lemma count_list_upt: "count_list [0..<h] p = (if p < h then 1 else 0)"
  by (induction h) auto

lemma invar_done_clean:
  assumes "invar D evs n s" and "all_done s" and "ctx_err s = None"
  shows "ipc s = I_Done None" and "map Event (heap s) = translated D evs"
    and "\<forall>i<n. calls (workers s ! i) = [0..<length (heap s)]"
proof -
  from assms(1) have len: "length (workers s) = n" and e: "inv_err s"
    by (simp_all add: invar_def inv_chans_def)
  from assms(2) obtain r where r: "ipc s = I_Done r"
    by (cases "ipc s") (simp_all add: all_done_def)
  with e assms(3) show i: "ipc s = I_Done None"
    by (auto simp: inv_err_def)
  from assms(1) obtain dn rest where
    inv: "evs = dn @ rest" "rest_ok (ipc s) rest (txs s)"
      "translated D dn = map Event (heap s) @ ip_msgs (ipc s)"
    unfolding invar_def inv_src_def by blast
  with i show "map Event (heap s) = translated D evs" by simp
  show "\<forall>i<n. calls (workers s ! i) = [0..<length (heap s)]"
  proof (intro allI impI)
    fix j assume j: "j < n"
    with assms(2) len have "is_done (wpc (workers s ! j))"
      by (simp add: all_done_def list_all_length)
    then obtain r' where r': "wpc (workers s ! j) = W_Done r'"
      by (cases "wpc (workers s ! j)") simp_all
    with e assms(3) j len have d: "wpc (workers s ! j) = W_Done None"
      by (fastforce simp: inv_err_def)
    from assms(1) j i have "queue_ok (length (heap s)) (workers s ! j)"
      by (simp add: invar_def inv_queue_def)
    with d show "calls (workers s ! j) = [0..<length (heap s)]"
      by (auto simp: queue_ok_def)
  qed
qed

text \<open>C1, as the code has it. In a run that has ended (every goroutine has returned) without
  the context being cancelled, a request was allocated for each event that \<^verbatim>\<open>ToMessage\<close>
  converts, with its payload, in the order of the source, and the \<^verbatim>\<open>Evaluate\<close> of each of the
  \<open>n\<close> agents was called once with each request: with the same pointer, hence the same
  payload and the same identifier. Each request counts \<open>n\<close> calls, and \<^verbatim>\<open>Start\<close> returns
  \<^verbatim>\<open>nil\<close>. With a source that closes, a run in which the context is not cancelled and
  nothing has panicked can always go on to such an end, and until then some goroutine can
  take a step.\<close>

theorem every_agent_evaluates_every_request:
  assumes "run D acts (init evs cl n) = Some s" and "ctx_err s = None"
  shows "(all_done s \<longrightarrow>
       map Event (heap s) = translated D evs \<and> length (workers s) = n \<and>
       (\<forall>i<n. calls (workers s ! i) = [0..<length (heap s)]) \<and>
       (\<forall>i<n. map (\<lambda>p. heap s ! p) (calls (workers s ! i)) = heap s) \<and>
       (\<forall>p<length (heap s). (\<Sum>i<n. count_list (calls (workers s ! i)) p) = n) \<and>
       Start_result s = Some None) \<and>
    (cl \<and> panicked s = None \<longrightarrow>
       (\<exists>acts' s'. run D acts' s = Some s' \<and> all_done s' \<and> ctx_err s' = None)) \<and>
    (cl \<and> panicked s = None \<and> \<not> all_done s \<longrightarrow>
       (\<exists>act. is_task act \<and> step D act s \<noteq> None))"
proof (intro conjI impI)
  note inv = invar_run [OF assms(1)]
  from inv have len: "length (workers s) = n" and e: "inv_err s"
    by (simp_all add: invar_def inv_chans_def)
  from src_closed_run [OF assms(1)] have sc: "src_closed s = cl"
    by (simp add: init_def)
  {
    assume d: "all_done s"
    note c = invar_done_clean [OF inv d assms(2)]
    from c(2) show "map Event (heap s) = translated D evs" .
    from len show "length (workers s) = n" .
    from c(3) show "\<forall>i<n. calls (workers s ! i) = [0..<length (heap s)]" .
    from c(3) show "\<forall>i<n. map (\<lambda>p. heap s ! p) (calls (workers s ! i)) = heap s"
      by (simp add: map_nth)
    from c(3) show "\<forall>p<length (heap s). (\<Sum>i<n. count_list (calls (workers s ! i)) p) = n"
      by (simp add: count_list_upt)
    from e assms(2) have "grp_err s = None" by (auto simp: inv_err_def)
    with d show "Start_result s = Some None" by (simp add: Start_result_def)
  }
  {
    assume "cl \<and> panicked s = None"
    with sc live_terminates [OF inv _ assms(2)]
    show "\<exists>acts' s'. run D acts' s = Some s' \<and> all_done s' \<and> ctx_err s' = None" by simp
  }
  {
    assume "cl \<and> panicked s = None \<and> \<not> all_done s"
    with sc live_progress [OF inv _ assms(2)]
    obtain act s' where "is_task act" "step D act s = Some s'" by blast
    then have "is_task act \<and> step D act s \<noteq> None" by simp
    then show "\<exists>act. is_task act \<and> step D act s \<noteq> None" by blast
  }
qed

theorem every_agent_evaluates_every_request_witness:
  "(case run ex_deps
      [Ingest (Inr ''a''), Ingest (Inr ''a''), Ingest (Inr ''a''), Ingest (Inr ''a''),
       Ingest (Inr ''a''), Ingest (Inr ''a''), Ingest (Inr ''a''), Ingest (Inr ''a''),
       Ingest (Inr ''a''), Ingest (Inr ''a''), Ingest (Inr ''a''),
       Work 0 (Inr 1), Work 0 (Inr 1), Work 0 (Inr 1), Work 0 (Inr 1), Work 0 (Inr 1),
       Work (Suc 0) (Inr 1), Work (Suc 0) (Inr 1), Work (Suc 0) (Inr 1), Work (Suc 0) (Inl DeadlineExceeded),
       Work (Suc 0) (Inr 1)]
      (init [1] True (Suc (Suc 0))) of
      None \<Rightarrow> False
    | Some s \<Rightarrow>
        all_done s \<and> ctx_err s = None \<and> map Event (heap s) = translated ex_deps [1] \<and>
        calls (workers s ! 0) = [0] \<and> calls (workers s ! Suc 0) = [0] \<and>
        Start_result s = Some None)"
proof -
  have r: "run ex_deps
      [Ingest (Inr ''a''), Ingest (Inr ''a''), Ingest (Inr ''a''), Ingest (Inr ''a''),
       Ingest (Inr ''a''), Ingest (Inr ''a''), Ingest (Inr ''a''), Ingest (Inr ''a''),
       Ingest (Inr ''a''), Ingest (Inr ''a''), Ingest (Inr ''a''),
       Work 0 (Inr 1), Work 0 (Inr 1), Work 0 (Inr 1), Work 0 (Inr 1), Work 0 (Inr 1),
       Work (Suc 0) (Inr 1), Work (Suc 0) (Inr 1), Work (Suc 0) (Inr 1), Work (Suc 0) (Inl DeadlineExceeded),
       Work (Suc 0) (Inr 1)]
      (init [1] True (Suc (Suc 0))) =
    Some \<lparr>txs = [], src_closed = True, ipc = I_Done None,
      workers = [\<lparr>input = \<lparr>buf = [], closed = True\<rparr>, wpc = W_Done None, calls = [0]\<rparr>,
                 \<lparr>input = \<lparr>buf = [], closed = True\<rparr>, wpc = W_Done None, calls = [0]\<rparr>],
      heap = [\<lparr>RequestId = ''a'', Event = 1\<rparr>], ctx_err = None, grp_err = None,
      logs = [LogInfo ''Starting TxAnalyzerService'', LogInfof ''ok'',
              LogError ''error invoking agent'' DeadlineExceeded],
      panicked = None, now = 0\<rparr>"
    by (simp add: run_eval)
  have d: "all_done \<lparr>txs = [], src_closed = True, ipc = I_Done None,
      workers = [\<lparr>input = \<lparr>buf = [], closed = True\<rparr>, wpc = W_Done None, calls = [0]\<rparr>,
                 \<lparr>input = \<lparr>buf = [], closed = True\<rparr>, wpc = W_Done None, calls = [0]\<rparr>],
      heap = [\<lparr>RequestId = ''a'', Event = (1::nat)\<rparr>], ctx_err = None, grp_err = None,
      logs = [LogInfo ''Starting TxAnalyzerService'', LogInfof ''ok'',
              LogError ''error invoking agent'' DeadlineExceeded],
      panicked = None, now = 0\<rparr>"
    by (simp add: all_done_def)
  have c: "ctx_err \<lparr>txs = [], src_closed = True, ipc = I_Done None,
      workers = [\<lparr>input = \<lparr>buf = [], closed = True\<rparr>, wpc = W_Done None, calls = [0]\<rparr>,
                 \<lparr>input = \<lparr>buf = [], closed = True\<rparr>, wpc = W_Done None, calls = [0]\<rparr>],
      heap = [\<lparr>RequestId = ''a'', Event = (1::nat)\<rparr>], ctx_err = None, grp_err = None,
      logs = [LogInfo ''Starting TxAnalyzerService'', LogInfof ''ok'',
              LogError ''error invoking agent'' DeadlineExceeded],
      panicked = None, now = 0\<rparr> = None"
    by simp
  from every_agent_evaluates_every_request [OF r c, THEN conjunct1, THEN mp, OF d] d
  show ?thesis
    unfolding r by (simp add: ex_deps_def)
qed

theorem cancelled_run_skips_calls_counterexample:
  "run ex_deps
      [Ingest (Inr ''a''), Ingest (Inr ''a''), Ingest (Inr ''a''), Ingest (Inr ''a''),
       Ingest (Inr ''a''), Ingest (Inr ''a''), Cancel, Work 0 (Inr 1), Work 0 (Inr 1),
       Ingest (Inr ''a''), Ingest (Inr ''a''), Ingest (Inr ''a'')]
      (init [1] True (Suc 0)) =
    Some \<lparr>txs = [], src_closed = True, ipc = I_Done None,
      workers = [\<lparr>input = \<lparr>buf = [], closed = True\<rparr>, wpc = W_Done (Some Canceled), calls = []\<rparr>],
      heap = [\<lparr>RequestId = ''a'', Event = 1\<rparr>], ctx_err = Some Canceled,
      grp_err = Some Canceled, logs = [LogInfo ''Starting TxAnalyzerService''],
      panicked = None, now = 0\<rparr> \<and>
   Start_result
     \<lparr>txs = [], src_closed = True, ipc = I_Done None,
      workers = [\<lparr>input = \<lparr>buf = [], closed = True\<rparr>, wpc = W_Done (Some Canceled), calls = []\<rparr>],
      heap = [\<lparr>RequestId = ''a'', Event = (1::nat)\<rparr>], ctx_err = Some Canceled,
      grp_err = Some Canceled, logs = [LogInfo ''Starting TxAnalyzerService''],
      panicked = None, now = 0\<rparr> = Some (Some Canceled)"
  by code_simp

text \<open>C3, as the code has it. The ingestion loop learns that the source is exhausted at its
  receive (line 76) only; while it waits in a placement (line 94) on a full queue whose
  goroutine has returned after a cancellation, it never gets there. From a state of a run in
  which the ingestion loop is at its head and the source is exhausted (\<^verbatim>\<open>TxChannel\<close> closed
  and empty):
  \<^item> the goroutines can run to the end: there is a continuation after which all have
    returned;
  \<^item> whatever the continuation, nothing panics (a second \<^verbatim>\<open>close\<close> of a channel would), the
    goroutines take at most \<open>fuel n s\<close> steps, and as long as one has not returned one of
    them can take a step: none waits forever;
  \<^item> when all have returned, every channel is closed, and over the whole run it went from
    open to closed once; \<^verbatim>\<open>Start\<close> returns the error the group has recorded, which is the
    error returned by any goroutine that returned one, and \<^verbatim>\<open>nil\<close> if none did.\<close>

theorem exhausted_source_shuts_down:
  assumes "run D acts (init evs cl n) = Some s" and "ipc s = I_Recv" and "txs s = []"
    and "src_closed s"
  shows "(\<exists>acts' s'. run D acts' s = Some s' \<and> all_done s') \<and>
    (\<forall>acts' s'. run D acts' s = Some s' \<longrightarrow>
       panicked s' = None \<and>
       length (filter is_task acts') + fuel n s' \<le> fuel n s \<and>
       (\<not> all_done s' \<longrightarrow> (\<exists>act. is_task act \<and> step D act s' \<noteq> None)) \<and>
       (all_done s' \<longrightarrow>
          (\<forall>i<n. closed (input (workers s' ! i)) \<and> is_done (wpc (workers s' ! i)) \<and>
             closes D i (acts @ acts') (init evs cl n) = 1) \<and>
          Start_result s' = Some (grp_err s') \<and>
          (\<forall>i<n. \<forall>e. wpc (workers s' ! i) = W_Done (Some e) \<longrightarrow> grp_err s' = Some e) \<and>
          ((\<forall>i<n. wpc (workers s' ! i) = W_Done None) \<longrightarrow> grp_err s' = None)))"
proof (intro conjI allI impI)
  note inv = invar_run [OF assms(1)]
  then have ic: "inv_chans n s" by (simp add: invar_def)
  from assms(2-4) have dr: "draining s" by (simp add: draining_def)
  from ic assms(2) have np: "panicked s = None"
    by (cases "panicked s") (auto simp: inv_chans_def)
  from drain_terminates [OF ic dr np] show "\<exists>acts' s'. run D acts' s = Some s' \<and> all_done s'" .
  fix acts' s'
  assume r: "run D acts' s = Some s'"
  from drain_run [OF r ic dr]
  have dr': "draining s'" and ic': "inv_chans n s'"
    and "length (filter is_task acts') + fuel n s' \<le> fuel n s"
    by simp_all
  then show "length (filter is_task acts') + fuel n s' \<le> fuel n s" by simp
  from ic' dr' show np': "panicked s' = None"
    by (cases "panicked s'") (auto simp: inv_chans_def draining_def)
  from assms(1) r have r0: "run D (acts @ acts') (init evs cl n) = Some s'"
    by (simp add: run_append)
  note inv' = invar_run [OF r0]
  from ic' have len: "length (workers s') = n" by (simp add: inv_chans_def)
  {
    assume "\<not> all_done s'"
    from drain_progress [OF ic' dr' np' this]
    show "\<exists>act. is_task act \<and> step D act s' \<noteq> None" .
  }
  {
    assume d: "all_done s'"
    then show "Start_result s' = Some (grp_err s')" by (simp add: Start_result_def)
    from d dr' have pc: "ipc s' = I_Done None"
      by (cases "ipc s'") (simp_all add: all_done_def draining_def)
    {
      fix i assume i: "i < n"
      from ic' pc i show "closed (input (workers s' ! i))" by (simp add: inv_chans_def)
      from d len i show "is_done (wpc (workers s' ! i))"
        by (simp add: all_done_def list_all_length)
      have "inv_chans n (init evs cl n :: ('a, 'b) state)" by (rule inv_chans_init)
      from closes_run [OF r0 this i] \<open>closed (input (workers s' ! i))\<close>
      show "closes D i (acts @ acts') (init evs cl n) = 1"
        by (simp add: init_def new_worker_def i)
    }
    {
      fix i e assume i: "i < n" and w: "wpc (workers s' ! i) = W_Done (Some e)"
      with len have "some_failed (workers s')" by (auto simp: some_failed_def)
      with inv_rec_run [OF r0] have "grp_err s' \<noteq> None" by (simp add: inv_rec_def)
      moreover from inv' i w len have "ctx_err s' = Some e"
        by (fastforce simp: invar_def inv_err_def)
      moreover from inv' have "grp_err s' = None \<or> grp_err s' = ctx_err s'"
        by (simp add: invar_def inv_err_def)
      ultimately show "grp_err s' = Some e" by auto
    }
    {
      assume a: "\<forall>i<n. wpc (workers s' ! i) = W_Done None"
      with len have "\<not> some_failed (workers s')" by (auto simp: some_failed_def)
      with inv' pc show "grp_err s' = None" by (auto simp: invar_def inv_grp_def)
    }
  }
qed

theorem exhausted_source_shuts_down_witness:
  "(case run ex_deps
      [Ingest (Inr ''a''), Ingest (Inr ''a''), Ingest (Inr ''a''), Ingest (Inr ''a''),
       Ingest (Inr ''a''), Ingest (Inr ''a'')]
      (init [1] True (Suc 0)) of
      None \<Rightarrow> False
    | Some s \<Rightarrow>
        ipc s = I_Recv \<and> txs s = [] \<and> src_closed s \<and>
        (case run ex_deps
           [Ingest (Inr ''a''), Work 0 (Inr 1), Work 0 (Inr 1), Work 0 (Inr 1), Ingest (Inr ''a''),
            Ingest (Inr ''a''), Work 0 (Inl DeadlineExceeded), Work 0 (Inr 1)]
           s of
           None \<Rightarrow> False
         | Some s' \<Rightarrow>
             all_done s' \<and> panicked s' = None \<and> closed (input (workers s' ! 0)) \<and>
             closes ex_deps 0
               ([Ingest (Inr ''a''), Ingest (Inr ''a''), Ingest (Inr ''a''), Ingest (Inr ''a''),
                 Ingest (Inr ''a''), Ingest (Inr ''a'')] @
                [Ingest (Inr ''a''), Work 0 (Inr 1), Work 0 (Inr 1), Work 0 (Inr 1),
                 Ingest (Inr ''a''), Ingest (Inr ''a''), Work 0 (Inl DeadlineExceeded),
                 Work 0 (Inr 1)])
               (init [1] True (Suc 0)) = 1 \<and>
             Start_result s' = Some None))"
proof -
  define S :: "(nat, nat) state" where
    "S = \<lparr>txs = [], src_closed = True, ipc = I_Recv,
      workers = [\<lparr>input = \<lparr>buf = [0], closed = False\<rparr>, wpc = W_Recv, calls = []\<rparr>],
      heap = [\<lparr>RequestId = ''a'', Event = 1\<rparr>], ctx_err = None, grp_err = None,
      logs = [LogInfo ''Starting TxAnalyzerService''], panicked = None, now = 0\<rparr>"
  define S' :: "(nat, nat) state" where
    "S' = \<lparr>txs = [], src_closed = True, ipc = I_Done None,
      workers = [\<lparr>input = \<lparr>buf = [], closed = True\<rparr>, wpc = W_Done None, calls = [0]\<rparr>],
      heap = [\<lparr>RequestId = ''a'', Event = 1\<rparr>], ctx_err = None, grp_err = None,
      logs = [LogInfo ''Starting TxAnalyzerService'',
              LogError ''error invoking agent'' DeadlineExceeded],
      panicked = None, now = 0\<rparr>"
  have r: "run ex_deps
      [Ingest (Inr ''a''), Ingest (Inr ''a''), Ingest (Inr ''a''), Ingest (Inr ''a''),
       Ingest (Inr ''a''), Ingest (Inr ''a'')]
      (init [1] True (Suc 0)) = Some S"
    by (simp add: run_eval S_def)
  have r': "run ex_deps
      [Ingest (Inr ''a''), Work 0 (Inr 1), Work 0 (Inr 1), Work 0 (Inr 1), Ingest (Inr ''a''),
       Ingest (Inr ''a''), Work 0 (Inl DeadlineExceeded), Work 0 (Inr 1)]
      S = Some S'"
    by (simp add: run_eval S_def S'_def)
  have p: "ipc S = I_Recv" "txs S = []" "src_closed S"
    by (simp_all add: S_def)
  have d: "all_done S'"
    by (simp add: all_done_def S'_def)
  note th = exhausted_source_shuts_down [OF r p, THEN conjunct2, THEN spec, THEN spec, THEN mp, OF r']
  have c: "closes ex_deps 0
               ([Ingest (Inr ''a''), Ingest (Inr ''a''), Ingest (Inr ''a''), Ingest (Inr ''a''),
                 Ingest (Inr ''a''), Ingest (Inr ''a'')] @
                [Ingest (Inr ''a''), Work 0 (Inr 1), Work 0 (Inr 1), Work 0 (Inr 1),
                 Ingest (Inr ''a''), Ingest (Inr ''a''), Work 0 (Inl DeadlineExceeded),
                 Work 0 (Inr 1)])
               (init [1] True (Suc 0)) = 1"
    using th d zero_less_Suc [of 0] by blast
  show ?thesis
    unfolding r option.case r' c using d p by (simp add: Start_result_def) (simp add: S'_def)
qed

theorem blocked_ingestion_never_closes_counterexample:
  "run ex_deps
     (replicate 600 (Ingest (Inr ''a'')) @ [Work 0 (Inr 1)] @ replicate 10 (Ingest (Inr ''a'')) @
      [Cancel, Work 0 (Inr 1)])
     (init (replicate 102 1) True (Suc 0)) =
   Some \<lparr>txs = [], src_closed = True, ipc = I_Send 101 0,
      workers = [\<lparr>input = \<lparr>buf = [1..<101], closed = False\<rparr>, wpc = W_Done (Some Canceled),
                  calls = []\<rparr>],
      heap = replicate 102 \<lparr>RequestId = ''a'', Event = 1\<rparr>, ctx_err = Some Canceled,
      grp_err = Some Canceled, logs = [LogInfo ''Starting TxAnalyzerService''],
      panicked = None, now = 0\<rparr> \<and>
   step ex_deps (Ingest (Inr ''a''))
     \<lparr>txs = [], src_closed = True, ipc = I_Send 101 0,
      workers = [\<lparr>input = \<lparr>buf = [1..<101], closed = False\<rparr>, wpc = W_Done (Some Canceled),
                  calls = []\<rparr>],
      heap = replicate 102 \<lparr>RequestId = ''a'', Event = (1::nat)\<rparr>, ctx_err = Some Canceled,
      grp_err = Some Canceled, logs = [LogInfo ''Starting TxAnalyzerService''],
      panicked = None, now = 0\<rparr> = None \<and>
   step ex_deps (Work 0 (Inr 1))
     \<lparr>txs = [], src_closed = True, ipc = I_Send 101 0,
      workers = [\<lparr>input = \<lparr>buf = [1..<101], closed = False\<rparr>, wpc = W_Done (Some Canceled),
                  calls = []\<rparr>],
      heap = replicate 102 \<lparr>RequestId = ''a'', Event = (1::nat)\<rparr>, ctx_err = Some Canceled,
      grp_err = Some Canceled, logs = [LogInfo ''Starting TxAnalyzerService''],
      panicked = None, now = 0\<rparr> = None \<and>
   Start_result
     \<lparr>txs = [], src_closed = True, ipc = I_Send 101 0,
      workers = [\<lparr>input = \<lparr>buf = [1..<101], closed = False\<rparr>, wpc = W_Done (Some Canceled),
                  calls = []\<rparr>],
      heap = replicate 102 \<lparr>RequestId = ''a'', Event = (1::nat)\<rparr>, ctx_err = Some Canceled,
      grp_err = Some Canceled, logs = [LogInfo ''Starting TxAnalyzerService''],
      panicked = None, now = 0\<rparr> = None"
  by code_simp

subsection \<open>A step of one goroutine does not depend on the others\<close>




subsection \<open>Failures that are logged and skipped\<close>








subsection \<open>No panic with the identifiers of the library\<close>





subsection \<open>The group's cancellation finds the context cancelled\<close>





end
